theory Spec2Isabelle
  imports Complex_Main
begin

section \<open>Errors and the outside world\<close>

text \<open>
  Exceptions of the Python sources are values. \<open>NavigationError\<close> stands for every
  exception of the rendering engine other than its timeout; the others are the Python
  built-ins that indexing, dictionary access, file access and pandas raise.
\<close>

datatype error = NavigationError | KeyError | ValueError | IndexError | FileNotFoundError
  | TypeError

text \<open>
  One attempt of \<open>fetch_html_content\<close> opens a page, navigates and reads the inner
  markup of a selector. What the site answers is outside the program: it is a parameter,
  giving for a URL, a selector and an attempt number the outcome of that attempt.
\<close>

datatype outcome = Timeout | Failure | Rendered string

type_synonym network = "string \<Rightarrow> string \<Rightarrow> nat \<Rightarrow> outcome"

text \<open>What a run does to the outside: it sleeps and it navigates.\<close>

datatype event = Sleep nat | Goto string string nat

section \<open>getdata.py: the fetcher\<close>

text \<open>
  The loop \<open>for attempt in range(1, retries + 1)\<close> of \<open>fetch_html_content\<close>, over the
  attempt numbers still to try. \<open>time.sleep(sleep * attempt)\<close> comes first; a timeout
  continues with the next attempt, a success breaks out with the markup, any other
  exception leaves the function. \<open>html\<close> is still \<open>None\<close> when the attempts run out.
\<close>

fun attempt_loop ::
  "network \<Rightarrow> string \<Rightarrow> string \<Rightarrow> nat \<Rightarrow> nat list \<Rightarrow> (error + string option) \<times> event list"
where
  "attempt_loop net url selector sleep [] = (Inr None, [])"
| "attempt_loop net url selector sleep (attempt # rest) =
     (case net url selector attempt of
        Timeout \<Rightarrow>
          apsnd (\<lambda>evs. Sleep (sleep * attempt) # Goto url selector attempt # evs)
            (attempt_loop net url selector sleep rest)
      | Failure \<Rightarrow>
          (Inl NavigationError, [Sleep (sleep * attempt), Goto url selector attempt])
      | Rendered html \<Rightarrow>
          (Inr (Some html), [Sleep (sleep * attempt), Goto url selector attempt]))"

definition fetch_html_content ::
  "network \<Rightarrow> string \<Rightarrow> string \<Rightarrow> nat \<Rightarrow> nat \<Rightarrow> (error + string option) \<times> event list"
where
  "fetch_html_content net url selector sleep retries =
     attempt_loop net url selector sleep [1 ..< retries + 1]"

text \<open>The call with the default arguments \<open>sleep=9, retries=12\<close>.\<close>

definition fetch_default :: "network \<Rightarrow> string \<Rightarrow> string \<Rightarrow> (error + string option) \<times> event list"
where
  "fetch_default net url selector = fetch_html_content net url selector 9 12"

text \<open>The events of attempts \<open>1 .. n\<close>: before each navigation, its sleep.\<close>

definition attempt_events :: "string \<Rightarrow> string \<Rightarrow> nat \<Rightarrow> nat list \<Rightarrow> event list" where
  "attempt_events url selector sleep as =
     concat (map (\<lambda>i. [Sleep (sleep * i), Goto url selector i]) as)"

fun delays :: "event list \<Rightarrow> nat list" where
  "delays [] = []"
| "delays (Sleep d # evs) = d # delays evs"
| "delays (Goto u s a # evs) = delays evs"

fun gotos :: "event list \<Rightarrow> (string \<times> string \<times> nat) list" where
  "gotos [] = []"
| "gotos (Sleep d # evs) = gotos evs"
| "gotos (Goto u s a # evs) = (u, s, a) # gotos evs"

text \<open>
  The number of attempts that a fetch with this budget makes at a resource: the attempts
  that time out one after the other from the first on, and the attempt after them when the
  budget is not used up by then.
\<close>

definition attempts_made :: "network \<Rightarrow> string \<Rightarrow> string \<Rightarrow> nat \<Rightarrow> nat" where
  "attempts_made net url selector retries =
     (let timed_out = takeWhile (\<lambda>i. net url selector i = Timeout) [1 ..< retries + 1]
      in if length timed_out = retries then retries else length timed_out + 1)"

section \<open>Strings\<close>

text \<open>\<open>s.startswith(p)\<close> and the substring test \<open>needle in s\<close>.\<close>

fun starts_with :: "string \<Rightarrow> string \<Rightarrow> bool" where
  "starts_with [] s = True"
| "starts_with (p # ps) [] = False"
| "starts_with (p # ps) (c # cs) = (p = c \<and> starts_with ps cs)"

fun contains :: "string \<Rightarrow> string \<Rightarrow> bool" where
  "contains needle [] = (needle = [])"
| "contains needle (c # cs) = (starts_with needle (c # cs) \<or> contains needle cs)"

text \<open>\<open>url.split("/")[-1]\<close>, which is also \<open>os.path.basename\<close> of a POSIX path.\<close>

definition last_segment :: "string \<Rightarrow> string" where
  "last_segment url = rev (takeWhile (\<lambda>c. c \<noteq> CHR ''/'') (rev url))"

text \<open>\<open>str(n)\<close> for a non-negative integer.\<close>

definition digit_char :: "nat \<Rightarrow> char" where
  "digit_char d = ''0123456789'' ! d"

fun str_nat :: "nat \<Rightarrow> string" where
  "str_nat n = (if n < 10 then [digit_char n] else str_nat (n div 10) @ [digit_char (n mod 10)])"

declare str_nat.simps [simp del]

section \<open>getdata.py: the artifact store\<close>

text \<open>
  A directory of the store: the file names with their contents, in the order in which
  \<open>os.listdir\<close> gives them. The store has one directory for schedule pages
  (\<open>STANDINGS_DIR\<close>) and one for box scores (\<open>SCORES_DIR\<close>).
\<close>

type_synonym directory = "(string \<times> string) list"

record store =
  standings_dir :: directory
  scores_dir :: directory

definition listdir :: "directory \<Rightarrow> string list" where
  "listdir d = map fst d"

text \<open>
  \<open>os.path.exists(os.path.join(DIR, name))\<close>. The directory itself exists (\<open>main\<close>
  creates it), so the empty name, \<open>.\<close> and \<open>..\<close> exist too.
\<close>

definition path_exists :: "directory \<Rightarrow> string \<Rightarrow> bool" where
  "path_exists d name =
     (name = [] \<or> name = ''.'' \<or> name = ''..'' \<or> name \<in> set (listdir d))"

text \<open>\<open>open(path, "w+")\<close> and \<open>write\<close>: the file is replaced, or created.\<close>

fun write_file :: "directory \<Rightarrow> string \<Rightarrow> string \<Rightarrow> directory" where
  "write_file [] name content = [(name, content)]"
| "write_file ((n, c) # d) name content =
     (if n = name then (n, content) # d else (n, c) # write_file d name content)"

definition read_file :: "directory \<Rightarrow> string \<Rightarrow> error + string" where
  "read_file d name = (case map_of d name of None \<Rightarrow> Inl FileNotFoundError | Some c \<Rightarrow> Inr c)"

section \<open>getdata.py: the crawl orchestrator\<close>

text \<open>
  \<open>BeautifulSoup(html).find_all("a")\<close> is outside the program: a parameter giving, for
  a markup fragment, the \<open>href\<close> of each anchor in document order, \<open>None\<close> for an
  anchor without one.
\<close>

type_synonym anchors = "string \<Rightarrow> string option list"

definition SEASONS :: "nat list" where
  "SEASONS = [2016 ..< 2025]"

definition site :: string where
  "site = ''https://www.basketball-reference.com''"

definition season_url :: "nat \<Rightarrow> string" where
  "season_url season = site @ ''/leagues/NBA_'' @ str_nat season @ ''_games.html''"

text \<open>Python's truth value of the fetched markup: \<open>None\<close> and the empty string are false.\<close>

fun truthy :: "string option \<Rightarrow> bool" where
  "truthy None = False"
| "truthy (Some h) = (h \<noteq> [])"

text \<open>
  A Python \<open>for\<close> loop whose body may raise: the first exception ends the loop, with the
  state and the events reached so far.
\<close>

fun for_each ::
  "('a \<Rightarrow> 's \<Rightarrow> (error + unit) \<times> 's \<times> event list) \<Rightarrow> 'a list \<Rightarrow> 's
     \<Rightarrow> (error + unit) \<times> 's \<times> event list"
where
  "for_each body [] st = (Inr (), st, [])"
| "for_each body (x # xs) st =
     (case body x st of
        (Inl e, st', evs) \<Rightarrow> (Inl e, st', evs)
      | (Inr u, st', evs) \<Rightarrow>
          (case for_each body xs st' of (r, st'', evs') \<Rightarrow> (r, st'', evs @ evs')))"

text \<open>
  The body shared by the loops of \<open>scrape_season_data\<close> and \<open>scrape_game_data\<close>: skip a
  resource whose file exists, otherwise fetch it and write it when the markup is true.
\<close>

definition save_page ::
  "network \<Rightarrow> string \<Rightarrow> string \<Rightarrow> directory \<Rightarrow> (error + unit) \<times> directory \<times> event list"
where
  "save_page net selector url d =
     (if path_exists d (last_segment url) then (Inr (), d, [])
      else (case fetch_default net url selector of
              (Inl e, evs) \<Rightarrow> (Inl e, d, evs)
            | (Inr None, evs) \<Rightarrow> (Inr (), d, evs)
            | (Inr (Some html), evs) \<Rightarrow>
                if html \<noteq> [] then (Inr (), write_file d (last_segment url) html, evs)
                else (Inr (), d, evs)))"

definition save_schedule_page ::
  "network \<Rightarrow> string \<Rightarrow> store \<Rightarrow> (error + unit) \<times> store \<times> event list"
where
  "save_schedule_page net page_url st =
     (case save_page net ''#all_schedule'' page_url (standings_dir st) of
        (r, d, evs) \<Rightarrow> (r, st\<lparr>standings_dir := d\<rparr>, evs))"

definition save_box_score ::
  "network \<Rightarrow> string \<Rightarrow> store \<Rightarrow> (error + unit) \<times> store \<times> event list"
where
  "save_box_score net game_url st =
     (case save_page net ''#content'' game_url (scores_dir st) of
        (r, d, evs) \<Rightarrow> (r, st\<lparr>scores_dir := d\<rparr>, evs))"

text \<open>\<open>[f"...{link['href']}" for link in links]\<close>: \<open>link['href']\<close> raises KeyError.\<close>

fun standings_pages :: "string option list \<Rightarrow> error + string list" where
  "standings_pages [] = Inr []"
| "standings_pages (None # links) = Inl KeyError"
| "standings_pages (Some href # links) =
     (case standings_pages links of Inl e \<Rightarrow> Inl e | Inr urls \<Rightarrow> Inr ((site @ href) # urls))"

definition scrape_season_data ::
  "network \<Rightarrow> anchors \<Rightarrow> nat \<Rightarrow> store \<Rightarrow> (error + unit) \<times> store \<times> event list"
where
  "scrape_season_data net find_all_a season st =
     (case fetch_default net (season_url season) ''#content .filter'' of
        (Inl e, evs) \<Rightarrow> (Inl e, st, evs)
      | (Inr html, evs) \<Rightarrow>
          if \<not> truthy html then (Inr (), st, evs)
          else (case standings_pages (find_all_a (the html)) of
                  Inl e \<Rightarrow> (Inl e, st, evs)
                | Inr urls \<Rightarrow>
                    (case for_each (save_schedule_page net) urls st of
                       (r, st', evs') \<Rightarrow> (r, st', evs @ evs'))))"

text \<open>
  \<open>[... for link in links if link.get('href') and "boxscore" in link.get('href')]\<close>
\<close>

fun box_score_urls :: "string option list \<Rightarrow> string list" where
  "box_score_urls [] = []"
| "box_score_urls (None # links) = box_score_urls links"
| "box_score_urls (Some href # links) =
     (if href \<noteq> [] \<and> contains ''boxscore'' href then (site @ href) # box_score_urls links
      else box_score_urls links)"

definition scrape_game_data ::
  "network \<Rightarrow> anchors \<Rightarrow> string \<Rightarrow> store \<Rightarrow> (error + unit) \<times> store \<times> event list"
where
  "scrape_game_data net find_all_a standings_file st =
     (case read_file (standings_dir st) standings_file of
        Inl e \<Rightarrow> (Inl e, st, [])
      | Inr html \<Rightarrow> for_each (save_box_score net) (box_score_urls (find_all_a html)) st)"

text \<open>
  The second loop of \<open>main\<close>: for each season, the listed files whose name contains the
  season, in listing order.
\<close>

definition files_by_season :: "string list \<Rightarrow> string list" where
  "files_by_season standings_files =
     concat (map (\<lambda>season. filter (contains (str_nat season)) standings_files) SEASONS)"

definition getdata_main ::
  "network \<Rightarrow> anchors \<Rightarrow> store \<Rightarrow> (error + unit) \<times> store \<times> event list"
where
  "getdata_main net find_all_a st =
     (case for_each (scrape_season_data net find_all_a) SEASONS st of
        (Inl e, st1, evs) \<Rightarrow> (Inl e, st1, evs)
      | (Inr u, st1, evs) \<Rightarrow>
          (case for_each (scrape_game_data net find_all_a)
                  (files_by_season (listdir (standings_dir st1))) st1 of
             (r, st2, evs') \<Rightarrow> (r, st2, evs @ evs')))"

section \<open>parsedata.py: tables and frames\<close>

text \<open>\<open>str.lower\<close> on the ASCII letters.\<close>

definition lower_char :: "char \<Rightarrow> char" where
  "lower_char c =
     (case map_of (zip ''ABCDEFGHIJKLMNOPQRSTUVWXYZ'' ''abcdefghijklmnopqrstuvwxyz'') c of
        None \<Rightarrow> c | Some l \<Rightarrow> l)"

definition lower :: "string \<Rightarrow> string" where
  "lower s = map lower_char s"

text \<open>
  A statistic table as \<open>extract_team_stats\<close> returns it: the column names and the rows
  of numbers, \<open>None\<close> for NaN (what \<open>pd.to_numeric(errors="coerce")\<close> makes of a cell
  that is not a number). The first column of the markup, the player, is the index and
  not among the columns. pandas holds the numbers as 64-bit integers or floats and gathers
  those of a row, and the maxima of the columns, as floats; here a number is the real
  number it denotes. The two agree as long as no number exceeds \<open>2 ^ 53\<close> in magnitude,
  beyond which a float no longer holds every whole number (\<open>float_exact\<close> below).
\<close>

record stat_table =
  stat_columns :: "string list"
  stat_rows :: "real option list list"

text \<open>A pandas Series of numbers: labels with values, in order, labels may repeat.\<close>

type_synonym series = "(string \<times> real option) list"

datatype cell = NaN | NumVal real | IntVal int | StrVal string | BoolVal bool | DateVal string

record frame =
  columns :: "string list"
  rows :: "cell list list"

text \<open>
  A parsed box score: the path of the file, the first and last column of the line score
  table (team and final total) row by row, the statistic tables by element id, and for
  each element matching \<open>#bottom_nav_container\<close> the \<open>href\<close> of its anchors. The totals
  are whole numbers, as \<open>pd.read_html\<close> reads them into a column of 64-bit integers
  (\<open>int64\<close> below); a total beyond 64 bits makes the column one of text, which this
  record does not represent.
\<close>

record document =
  path :: string
  line_score :: "(string \<times> int) list"
  stat_tables :: "(string \<times> stat_table) list"
  bottom_nav :: "string option list list"

text \<open>\<open>pd.read_html(..., attrs={"id": ...})\<close> raises ValueError when no table matches.\<close>

definition extract_team_stats :: "document \<Rightarrow> string \<Rightarrow> string \<Rightarrow> error + stat_table" where
  "extract_team_stats soup team stat_type =
     (case map_of (stat_tables soup) (''box-'' @ team @ ''-game-'' @ stat_type) of
        None \<Rightarrow> Inl ValueError
      | Some df \<Rightarrow> Inr df)"

fun all_hrefs :: "string option list \<Rightarrow> error + string list" where
  "all_hrefs [] = Inr []"
| "all_hrefs (None # links) = Inl KeyError"
| "all_hrefs (Some href # links) =
     (case all_hrefs links of Inl e \<Rightarrow> Inl e | Inr hrefs \<Rightarrow> Inr (href # hrefs))"

definition extract_season :: "document \<Rightarrow> error + string" where
  "extract_season soup =
     (case bottom_nav soup of
        [] \<Rightarrow> Inl IndexError
      | nav # others \<Rightarrow>
          (case all_hrefs nav of
             Inl e \<Rightarrow> Inl e
           | Inr hrefs \<Rightarrow>
               if length hrefs < 2 then Inl IndexError
               else Inr (takeWhile (\<lambda>c. c \<noteq> CHR ''_'') (last_segment (hrefs ! 1)))))"

text \<open>\<open>df.iloc[-1, :]\<close>: the last row, labelled by the columns; IndexError without rows.\<close>

definition last_row :: "stat_table \<Rightarrow> error + series" where
  "last_row df =
     (if stat_rows df = [] then Inl IndexError
      else Inr (zip (stat_columns df) (last (stat_rows df))))"

text \<open>The maximum of two numbers that skips NaN, as \<open>max\<close> with \<open>skipna=True\<close> does.\<close>

fun nanmax :: "real option \<Rightarrow> real option \<Rightarrow> real option" where
  "nanmax None y = y"
| "nanmax (Some x) None = Some x"
| "nanmax (Some x) (Some y) = Some (max x y)"

text \<open>
  \<open>df.iloc[:-1, :].max()\<close>: all rows but the last, and of these the maximum of each
  column; NaN for a column without a number.
\<close>

definition column_maxima :: "nat \<Rightarrow> real option list list \<Rightarrow> real option list" where
  "column_maxima n rs = foldr (\<lambda>row acc. map2 nanmax row acc) rs (replicate n None)"

definition player_max :: "stat_table \<Rightarrow> series" where
  "player_max df =
     zip (stat_columns df)
       (column_maxima (length (stat_columns df)) (butlast (stat_rows df)))"

definition relabel :: "(string \<Rightarrow> string) \<Rightarrow> series \<Rightarrow> series" where
  "relabel f s = map (\<lambda>(k, v). (f k, v)) s"

text \<open>\<open>index.drop_duplicates(keep="first")\<close>\<close>

fun drop_duplicates :: "string list \<Rightarrow> string list" where
  "drop_duplicates [] = []"
| "drop_duplicates (x # xs) = x # drop_duplicates (filter (\<lambda>y. y \<noteq> x) xs)"

text \<open>
  \<open>base_columns\<close> is \<open>None\<close>, a Python list, or the pandas Index that \<open>main\<close> takes
  from \<open>game_data.columns\<close>. \<open>not base_columns\<close> is true for \<open>None\<close> and for the empty
  list; the truth value of a pandas Index is ambiguous and raises ValueError.
\<close>

datatype base_columns = PyNone | PyList "string list" | PdIndex "string list"

fun py_not :: "base_columns \<Rightarrow> error + bool" where
  "py_not PyNone = Inr True"
| "py_not (PyList cols) = Inr (cols = [])"
| "py_not (PdIndex cols) = Inl ValueError"

fun labels :: "base_columns \<Rightarrow> string list" where
  "labels PyNone = []"
| "labels (PyList cols) = cols"
| "labels (PdIndex cols) = cols"

text \<open>
  \<open>summary[base_columns]\<close>: for each label in turn all entries of the series with that
  label; KeyError for a label that the series does not have.
\<close>

fun getitem :: "series \<Rightarrow> string list \<Rightarrow> error + series" where
  "getitem s [] = Inr []"
| "getitem s (c # cols) =
     (if c \<notin> set (map fst s) then Inl KeyError
      else (case getitem s cols of
              Inl e \<Rightarrow> Inl e
            | Inr rest \<Rightarrow> Inr (filter (\<lambda>(k, v). k = c) s @ rest)))"

text \<open>The series \<open>summary\<close> of one team, before the projection.\<close>

definition build_summary :: "document \<Rightarrow> string \<Rightarrow> error + series" where
  "build_summary soup team =
     (case extract_team_stats soup team ''basic'' of
        Inl e \<Rightarrow> Inl e
      | Inr basic_stats \<Rightarrow>
     (case extract_team_stats soup team ''advanced'' of
        Inl e \<Rightarrow> Inl e
      | Inr advanced_stats \<Rightarrow>
     (case last_row basic_stats of
        Inl e \<Rightarrow> Inl e
      | Inr basic_totals \<Rightarrow>
     (case last_row advanced_stats of
        Inl e \<Rightarrow> Inl e
      | Inr advanced_totals \<Rightarrow>
          Inr (relabel lower (basic_totals @ advanced_totals)
               @ relabel (\<lambda>c. lower c @ ''_max'')
                   (player_max basic_stats @ player_max advanced_stats))))))"

text \<open>
  The loop \<open>for team in teams\<close> of \<open>process_box_score\<close>: the summaries in order, and
  \<open>base_columns\<close> as the loop leaves it.
\<close>

fun summarize :: "document \<Rightarrow> string list \<Rightarrow> base_columns \<Rightarrow> error + (series list \<times> base_columns)"
where
  "summarize soup [] base_columns = Inr ([], base_columns)"
| "summarize soup (team # teams) base_columns =
     (case build_summary soup team of
        Inl e \<Rightarrow> Inl e
      | Inr summary \<Rightarrow>
     (case py_not base_columns of
        Inl e \<Rightarrow> Inl e
      | Inr unset \<Rightarrow>
          (let base_columns' =
                 (if unset
                  then PyList (filter (\<lambda>col. \<not> contains ''bpm'' col)
                                 (drop_duplicates (map fst summary)))
                  else base_columns)
           in (case getitem summary (labels base_columns') of
                 Inl e \<Rightarrow> Inl e
               | Inr projected \<Rightarrow>
                   (case summarize soup teams base_columns' of
                      Inl e \<Rightarrow> Inl e
                    | Inr (summaries, final) \<Rightarrow> Inr (projected # summaries, final))))))"

definition stat_cell :: "real option \<Rightarrow> cell" where
  "stat_cell v = (case v of None \<Rightarrow> NaN | Some x \<Rightarrow> NumVal x)"

text \<open>
  \<open>pd.concat(summaries, axis=1).T\<close>: one row per summary. Nothing to concatenate is a
  ValueError. Summaries with the same labels are taken as they are; otherwise the labels
  are united in order of appearance and a missing value is NaN, which pandas refuses
  with a ValueError when a summary has a label twice.
\<close>

definition concat_summaries :: "series list \<Rightarrow> error + frame" where
  "concat_summaries summaries =
     (if summaries = [] then Inl ValueError
      else if \<forall>s \<in> set summaries. map fst s = map fst (hd summaries)
      then Inr \<lparr>columns = map fst (hd summaries),
                rows = map (map (\<lambda>(k, v). stat_cell v)) summaries\<rparr>
      else if \<exists>s \<in> set summaries. \<not> distinct (map fst s) then Inl ValueError
      else (let keys = drop_duplicates (concat (map (map fst) summaries))
            in Inr \<lparr>columns = keys,
                     rows = map (\<lambda>s. map (\<lambda>k. case map_of s k of None \<Rightarrow> NaN
                                                  | Some v \<Rightarrow> stat_cell v) keys) summaries\<rparr>))"

text \<open>
  \<open>df[c] = values\<close> with a list of values, as \<open>DataFrame.__setitem__\<close> does it. There
  are two ways. The first takes one value per row: every column named \<open>c\<close> is
  overwritten row by row, and when there is none the column is appended.
\<close>

definition overwrite :: "string \<Rightarrow> cell list \<Rightarrow> frame \<Rightarrow> frame" where
  "overwrite c vals df =
     (if c \<in> set (columns df)
      then df\<lparr>rows := map2 (\<lambda>v row. map2 (\<lambda>k x. if k = c then v else x) (columns df) row)
                          vals (rows df)\<rparr>
      else df\<lparr>columns := columns df @ [c], rows := map2 (\<lambda>v row. row @ [v]) vals (rows df)\<rparr>)"

text \<open>
  The second takes one value per column named \<open>c\<close>: in a row, the first of these columns
  gets the first value, the second the second, and so on.
\<close>

fun assign_each :: "string \<Rightarrow> cell list \<Rightarrow> string list \<Rightarrow> cell list \<Rightarrow> cell list" where
  "assign_each c vals [] row = row"
| "assign_each c vals (k # ks) [] = []"
| "assign_each c vals (k # ks) (x # xs) =
     (if k = c then (case vals of [] \<Rightarrow> x | v # vs \<Rightarrow> v) # assign_each c (tl vals) ks xs
      else x # assign_each c vals ks xs)"

definition spread :: "string \<Rightarrow> cell list \<Rightarrow> frame \<Rightarrow> frame" where
  "spread c vals df = df\<lparr>rows := map (assign_each c vals (columns df)) (rows df)\<rparr>"

text \<open>
  pandas takes the second way when more than one column is named \<open>c\<close> and these columns
  are as many as the values; the number of rows is then not looked at. Otherwise it takes
  the first way, and values that are not as many as the rows are a ValueError.
\<close>

definition set_column :: "string \<Rightarrow> cell list \<Rightarrow> frame \<Rightarrow> error + frame" where
  "set_column c vals df =
     (if 1 < count_list (columns df) c \<and> count_list (columns df) c = length vals
      then Inr (spread c vals df)
      else if length vals \<noteq> length (rows df) then Inl ValueError
      else Inr (overwrite c vals df))"

text \<open>
  \<open>df[c] = value\<close> with a single value, a string or a date: it is the value of every row,
  in every column named \<open>c\<close>, or in a new last column.
\<close>

definition set_scalar :: "string \<Rightarrow> cell \<Rightarrow> frame \<Rightarrow> frame" where
  "set_scalar c v df = overwrite c (replicate (length (rows df)) v) df"

text \<open>
  \<open>game_df\<close>: the summaries side by side with the line score, and the \<open>home\<close> column
  \<open>[0, 1]\<close>, which needs exactly two rows unless two columns of the summaries are named
  \<open>home\<close> already.
\<close>

definition game_frame :: "document \<Rightarrow> base_columns \<Rightarrow> error + frame" where
  "game_frame soup base_columns =
     (case summarize soup (map fst (line_score soup)) base_columns of
        Inl e \<Rightarrow> Inl e
      | Inr (summaries, final) \<Rightarrow>
          (case concat_summaries summaries of
             Inl e \<Rightarrow> Inl e
           | Inr summary_df \<Rightarrow>
               (let game_df =
                      \<lparr>columns = columns summary_df @ [''team'', ''total''],
                       rows = map2 (\<lambda>row (team, total). row @ [StrVal team, IntVal total])
                                (rows summary_df) (line_score soup)\<rparr>
                in set_column ''home'' [IntVal 0, IntVal 1] game_df)))"

text \<open>
  \<open>pd.concat([game_df, game_opp_df], axis=1)\<close>, where \<open>game_opp_df\<close> is \<open>game_df\<close>
  with the rows reversed and \<open>_opp\<close> added to every column name.
\<close>

definition with_opponent :: "frame \<Rightarrow> frame" where
  "with_opponent game_df =
     \<lparr>columns = columns game_df @ map (\<lambda>c. c @ ''_opp'') (columns game_df),
      rows = map2 (@) (rows game_df) (rev (rows game_df))\<rparr>"

text \<open>The value of a row in the column named \<open>c\<close>.\<close>

definition cell_of :: "string list \<Rightarrow> cell list \<Rightarrow> string \<Rightarrow> cell" where
  "cell_of cols row c = (case map_of (zip cols row) c of None \<Rightarrow> NaN | Some v \<Rightarrow> v)"

fun greater :: "cell \<Rightarrow> cell \<Rightarrow> error + bool" where
  "greater (IntVal a) (IntVal b) = Inr (a > b)"
| "greater (NumVal a) (NumVal b) = Inr (a > b)"
| "greater (IntVal a) (NumVal b) = Inr (of_int a > b)"
| "greater (NumVal a) (IntVal b) = Inr (a > of_int b)"
| "greater NaN b = Inr False"
| "greater a NaN = Inr False"
| "greater a b = Inl TypeError"

fun greater_rows :: "string list \<Rightarrow> cell list list \<Rightarrow> error + bool list" where
  "greater_rows cols [] = Inr []"
| "greater_rows cols (row # others) =
     (case greater (cell_of cols row ''total'') (cell_of cols row ''total_opp'') of
        Inl e \<Rightarrow> Inl e
      | Inr b \<Rightarrow> (case greater_rows cols others of Inl e \<Rightarrow> Inl e | Inr bs \<Rightarrow> Inr (b # bs)))"

text \<open>
  \<open>full_game_df["total"] > full_game_df["total_opp"]\<close>: a missing column is a KeyError;
  a name that two columns carry selects a frame, and the comparison of differently
  labelled operands is a ValueError.
\<close>

definition won_column :: "frame \<Rightarrow> error + bool list" where
  "won_column df =
     (if ''total'' \<notin> set (columns df) \<or> ''total_opp'' \<notin> set (columns df) then Inl KeyError
      else if count_list (columns df) ''total'' \<noteq> 1 \<or> count_list (columns df) ''total_opp'' \<noteq> 1
      then Inl ValueError
      else greater_rows (columns df) (rows df))"

text \<open>
  \<open>pd.to_datetime(s, format="%Y%m%d")\<close> is outside the program: a parameter, \<open>None\<close>
  where it raises ValueError.
\<close>

type_synonym to_datetime = "string \<Rightarrow> string option"

text \<open>The rest of \<open>process_box_score\<close>, from \<open>game_opp_df\<close> on.\<close>

definition full_game :: "to_datetime \<Rightarrow> document \<Rightarrow> frame \<Rightarrow> error + frame" where
  "full_game to_datetime soup game_df =
     (let full_game_df = with_opponent game_df
      in case extract_season soup of
           Inl e \<Rightarrow> Inl e
         | Inr season \<Rightarrow>
             (case to_datetime (take 8 (last_segment (path soup))) of
                None \<Rightarrow> Inl ValueError
              | Some date \<Rightarrow>
                  (let dated = set_scalar ''date'' (DateVal date)
                                 (set_scalar ''season'' (StrVal season) full_game_df)
                   in case won_column dated of
                        Inl e \<Rightarrow> Inl e
                      | Inr won \<Rightarrow> set_column ''won'' (map BoolVal won) dated)))"

definition process_box_score :: "to_datetime \<Rightarrow> document \<Rightarrow> base_columns \<Rightarrow> error + frame" where
  "process_box_score to_datetime box_score base_columns =
     (case game_frame box_score base_columns of
        Inl e \<Rightarrow> Inl e
      | Inr game_df \<Rightarrow> full_game to_datetime box_score game_df)"

text \<open>
  The loop of \<open>main\<close>: \<open>base_columns\<close> starts as \<open>None\<close> and, while it is false, is
  replaced by \<open>game_data.columns\<close>, a pandas Index.
\<close>

fun main_loop ::
  "to_datetime \<Rightarrow> document list \<Rightarrow> base_columns \<Rightarrow> frame list \<Rightarrow> error + frame list"
where
  "main_loop to_datetime [] base_columns games_data = Inr games_data"
| "main_loop to_datetime (box_score # others) base_columns games_data =
     (case process_box_score to_datetime box_score base_columns of
        Inl e \<Rightarrow> Inl e
      | Inr game_data \<Rightarrow>
          (case py_not base_columns of
             Inl e \<Rightarrow> Inl e
           | Inr unset \<Rightarrow>
               main_loop to_datetime others
                 (if unset then PdIndex (columns game_data) else base_columns)
                 (games_data @ [game_data])))"

text \<open>\<open>pd.concat(games_data)\<close> raises ValueError when there is no game.\<close>

definition parsedata_main :: "to_datetime \<Rightarrow> document list \<Rightarrow> error + frame list" where
  "parsedata_main to_datetime box_scores =
     (case main_loop to_datetime box_scores PyNone [] of
        Inl e \<Rightarrow> Inl e
      | Inr games_data \<Rightarrow> if games_data = [] then Inl ValueError else Inr games_data)"

text \<open>
  What the claims speak of. A table whose rows are as long as its header, and whose numbers
  are held exactly by a float.
\<close>

definition well_formed :: "stat_table \<Rightarrow> bool" where
  "well_formed df = (\<forall>r \<in> set (stat_rows df). length r = length (stat_columns df))"

definition float_exact :: "stat_table \<Rightarrow> bool" where
  "float_exact df =
     (\<forall>r \<in> set (stat_rows df). \<forall>v \<in> set r. case v of None \<Rightarrow> True | Some x \<Rightarrow> \<bar>x\<bar> \<le> 2 ^ 53)"

text \<open>A whole number that a 64-bit integer holds.\<close>

definition int64 :: "int \<Rightarrow> bool" where
  "int64 x = (- (2 ^ 63) \<le> x \<and> x < 2 ^ 63)"

text \<open>
  The value \<open>m\<close> is the maximum of the numbers among \<open>vs\<close>, NaN when there is none; and
  that maximum as a function.
\<close>

definition is_max_of :: "real option \<Rightarrow> real option list \<Rightarrow> bool" where
  "is_max_of m vs =
     (case m of
        None \<Rightarrow> (\<forall>v \<in> set vs. v = None)
      | Some x \<Rightarrow> Some x \<in> set vs \<and> (\<forall>y. Some y \<in> set vs \<longrightarrow> y \<le> x))"

definition numbers :: "real option list \<Rightarrow> real list" where
  "numbers vs = concat (map (\<lambda>v. case v of None \<Rightarrow> [] | Some x \<Rightarrow> [x]) vs)"

definition maximum :: "real option list \<Rightarrow> real option" where
  "maximum vs = (if numbers vs = [] then None else Some (Max (set (numbers vs))))"

text \<open>
  The entries that the summary of a team is said to have. For each column of a table, the
  lower-cased name with the value of the last row, the team totals; and the name with
  \<open>_max\<close> with the maximum of the column over the rows before the last, the players.
  The basic table comes before the advanced one, the totals before the maxima.
\<close>

definition players :: "stat_table \<Rightarrow> nat \<Rightarrow> real option list" where
  "players df j = map (\<lambda>r. r ! j) (butlast (stat_rows df))"

definition totals_of :: "stat_table \<Rightarrow> series" where
  "totals_of df = zip (map lower (stat_columns df)) (last (stat_rows df))"

definition maxima_of :: "stat_table \<Rightarrow> series" where
  "maxima_of df =
     zip (map (\<lambda>c. lower c @ ''_max'') (stat_columns df))
         (map (\<lambda>j. maximum (players df j)) [0 ..< length (stat_columns df)])"

definition entries :: "stat_table \<Rightarrow> stat_table \<Rightarrow> series" where
  "entries basic advanced =
     totals_of basic @ totals_of advanced @ maxima_of basic @ maxima_of advanced"

text \<open>
  The labels onto which a summary is projected: those of \<open>base_columns\<close> when it is set,
  otherwise the labels of the entries, each once, without the plus-minus family; these
  labels are then pinned as \<open>base_columns\<close> for the teams that follow. The projection
  takes for each label in turn every entry that has it.
\<close>

definition schema_for :: "base_columns \<Rightarrow> series \<Rightarrow> string list" where
  "schema_for base_columns s =
     (if base_columns = PyNone \<or> base_columns = PyList []
      then filter (\<lambda>col. \<not> contains ''bpm'' col) (drop_duplicates (map fst s))
      else labels base_columns)"

definition pinned :: "base_columns \<Rightarrow> series \<Rightarrow> base_columns" where
  "pinned base_columns s =
     (if base_columns = PyNone \<or> base_columns = PyList []
      then PyList (schema_for base_columns s) else base_columns)"

definition select :: "string list \<Rightarrow> series \<Rightarrow> series" where
  "select cols s = concat (map (\<lambda>c. filter (\<lambda>(k, v). k = c) s) cols)"

text \<open>The value of a record, row \<open>i\<close> of a frame, in the column \<open>c\<close>.\<close>

definition value_at :: "frame \<Rightarrow> nat \<Rightarrow> string \<Rightarrow> cell" where
  "value_at df i c = cell_of (columns df) (rows df ! i) c"

text \<open>A frame of two rows that are as long as its header.\<close>

definition two_rows :: "frame \<Rightarrow> bool" where
  "two_rows df = (\<exists>p q. rows df = [p, q] \<and> length p = length (columns df)
                        \<and> length q = length (columns df))"

text \<open>
  The frame of a game beside its opponent with the season and the date set: the frame
  from which \<open>won\<close> is derived.
\<close>

definition dated :: "string \<Rightarrow> string \<Rightarrow> frame \<Rightarrow> frame" where
  "dated s d game_df =
     set_scalar ''date'' (DateVal d) (set_scalar ''season'' (StrVal s) (with_opponent game_df))"

section \<open>Orders, traces and comparisons of runs\<close>

text \<open>A directory \<open>d'\<close> extends \<open>d\<close>: every file of \<open>d\<close> is still there, with the same content.\<close>

definition dir_le :: "directory \<Rightarrow> directory \<Rightarrow> bool" where
  "dir_le d d' = (\<forall>n \<in> set (listdir d). n \<in> set (listdir d') \<and> map_of d' n = map_of d n)"

text \<open>The same for both directories of the store.\<close>

definition store_le :: "store \<Rightarrow> store \<Rightarrow> bool" where
  "store_le st st' =
     (dir_le (standings_dir st) (standings_dir st') \<and> dir_le (scores_dir st) (scores_dir st'))"

text \<open>Every navigation for a schedule page or a box score is for a resource whose file does not
  exist in the store: the selector tells the kind of resource.\<close>

definition fetches_absent :: "store \<Rightarrow> event list \<Rightarrow> bool" where
  "fetches_absent st evs =
     (\<forall>(u, sel, a) \<in> set (gotos evs).
        (sel = ''#all_schedule'' \<longrightarrow> \<not> path_exists (standings_dir st) (last_segment u)) \<and>
        (sel = ''#content'' \<longrightarrow> \<not> path_exists (scores_dir st) (last_segment u)))"

text \<open>The run stops at the first navigation that fails other than by a timeout.\<close>

fun no_event_after_failure :: "network \<Rightarrow> event list \<Rightarrow> bool" where
  "no_event_after_failure net [] = True"
| "no_event_after_failure net (Sleep d # evs) = no_event_after_failure net evs"
| "no_event_after_failure net (Goto u s a # evs) =
     (if net u s a = Failure then evs = [] else no_event_after_failure net evs)"

text \<open>Some navigation of the run failed other than by a timeout.\<close>

definition has_failure :: "network \<Rightarrow> event list \<Rightarrow> bool" where
  "has_failure net evs = (\<exists>(u, s, a) \<in> set (gotos evs). net u s a = Failure)"

text \<open>A failed navigation is the last event of the run, and the run ends with that exception.\<close>

definition aborted :: "network \<Rightarrow> error + 'a \<Rightarrow> event list \<Rightarrow> bool" where
  "aborted net r evs =
     (no_event_after_failure net evs \<and> (has_failure net evs \<longrightarrow> r = Inl NavigationError))"

text \<open>The URLs for which a fetch with this selector was started (its attempt 1), in order.\<close>

definition fetched :: "string \<Rightarrow> event list \<Rightarrow> string list" where
  "fetched selector evs = map fst (filter (\<lambda>(u, s, a). s = selector \<and> a = 1) (gotos evs))"

text \<open>The same site, except that every attempt at one resource times out.\<close>

definition with_timeouts :: "network \<Rightarrow> string \<Rightarrow> string \<Rightarrow> network" where
  "with_timeouts net url selector =
     (\<lambda>u s a. if u = url \<and> s = selector then Timeout else net u s a)"

text \<open>Two runs end with the same result and the same state (their events may differ).\<close>

definition same_result :: "('r \<times> 's \<times> event list) \<Rightarrow> ('r \<times> 's \<times> event list) \<Rightarrow> bool" where
  "same_result p q = (fst p = fst q \<and> fst (snd p) = fst (snd q))"

section \<open>Example sites and stores\<close>

text \<open>
  A site whose 2016 season index cannot be loaded, and a site whose 2016 index lists three
  schedule pages, with a store that already holds two of them.
\<close>

definition failing_net :: network where
  "failing_net u s a = (if u = season_url 2016 then Failure else Rendered ''x'')"

definition empty_store :: store where
  "empty_store = \<lparr>standings_dir = [], scores_dir = []\<rparr>"

definition october :: string where "october = ''/leagues/NBA_2016_games-october.html''"
definition november :: string where "november = ''/leagues/NBA_2016_games-november.html''"
definition december :: string where "december = ''/leagues/NBA_2016_games-december.html''"

definition example_net :: network where
  "example_net u s a =
     (if u = season_url 2016 \<and> s = ''#content .filter'' then Rendered ''index''
      else if u = site @ december \<and> s = ''#all_schedule'' then Rendered ''december''
      else Rendered [])"

definition example_anchors :: anchors where
  "example_anchors html =
     (if html = ''index'' then [Some october, Some november, Some december] else [])"

definition example_store :: store where
  "example_store =
     \<lparr>standings_dir = [(last_segment october, ''october''), (last_segment november, ''november'')],
      scores_dir = []\<rparr>"

definition example_store' :: store where
  "example_store' =
     \<lparr>standings_dir = [(last_segment october, ''october''), (last_segment november, ''november''),
         (last_segment december, ''december'')],
      scores_dir = []\<rparr>"

definition example_season_events :: "event list" where
  "example_season_events =
     [Sleep 9, Goto (season_url 2016) ''#content .filter'' 1,
      Sleep 9, Goto (site @ december) ''#all_schedule'' 1]"

definition example_events :: "event list" where
  "example_events = example_season_events @
     [Sleep 9, Goto (season_url 2017) ''#content .filter'' 1,
      Sleep 9, Goto (season_url 2018) ''#content .filter'' 1,
      Sleep 9, Goto (season_url 2019) ''#content .filter'' 1,
      Sleep 9, Goto (season_url 2020) ''#content .filter'' 1,
      Sleep 9, Goto (season_url 2021) ''#content .filter'' 1,
      Sleep 9, Goto (season_url 2022) ''#content .filter'' 1,
      Sleep 9, Goto (season_url 2023) ''#content .filter'' 1,
      Sleep 9, Goto (season_url 2024) ''#content .filter'' 1]"

text \<open>A site whose pages time out twice and render at the third attempt.\<close>

definition slow_net :: network where
  "slow_net u s a = (if a < 3 then Timeout else Rendered ''page'')"

text \<open>A site that renders every page with an empty fragment.\<close>

definition blank_net :: network where
  "blank_net u s a = Rendered []"

text \<open>
  A box score of two teams, with two players each, the totals of the line score as
  parameters; and a date parser that knows the date of its file name.
\<close>

definition example_basic :: "real \<Rightarrow> real \<Rightarrow> real \<Rightarrow> stat_table" where
  "example_basic p1 p2 pts =
     \<lparr>stat_columns = [''MP'', ''PTS'', ''+/-''],
      stat_rows = [[None, Some p1, Some 4], [None, Some p2, Some (-2)], [Some 240, Some pts, None]]\<rparr>"

definition example_advanced :: stat_table where
  "example_advanced =
     \<lparr>stat_columns = [''MP'', ''TS%'', ''BPM''],
      stat_rows = [[None, Some 0.61, Some 3.5], [None, Some 0.48, Some (-1.2)],
                   [Some 240, Some 0.55, None]]\<rparr>"

definition example_game :: "int \<Rightarrow> int \<Rightarrow> document" where
  "example_game lal bos =
     \<lparr>path = ''data/scores/201610260BOS.html'',
      line_score = [(''LAL'', lal), (''BOS'', bos)],
      stat_tables =
        [(''box-LAL-game-basic'', example_basic 30 21 104),
         (''box-LAL-game-advanced'', example_advanced),
         (''box-BOS-game-basic'', example_basic 25 33 110),
         (''box-BOS-game-advanced'', example_advanced)],
      bottom_nav = [[Some ''/leagues/'', Some ''/leagues/NBA_2017.html'']]\<rparr>"

definition example_to_datetime :: to_datetime where
  "example_to_datetime s = (if s = ''20161026'' then Some ''2016-10-26'' else None)"

text \<open>The columns that the example pins, and the frame extracted from the example.\<close>

definition example_frame :: "int \<Rightarrow> int \<Rightarrow> frame" where
  "example_frame lal bos =
     \<lparr>columns =
        [''mp'', ''mp'', ''pts'', ''+/-'', ''ts%'', ''mp_max'', ''mp_max'',
         ''pts_max'', ''+/-_max'', ''ts%_max'', ''team'', ''total'',
         ''home'', ''mp_opp'', ''mp_opp'', ''pts_opp'', ''+/-_opp'',
         ''ts%_opp'', ''mp_max_opp'', ''mp_max_opp'', ''pts_max_opp'',
         ''+/-_max_opp'', ''ts%_max_opp'', ''team_opp'', ''total_opp'',
         ''home_opp'', ''season'', ''date'', ''won''],
      rows =
        [[NumVal 240, NumVal 240, NumVal 104, NaN, NumVal 0.55, NaN,
          NaN, NumVal 30, NumVal 4, NumVal 0.61, StrVal ''LAL'',
          IntVal lal, IntVal 0, NumVal 240, NumVal 240, NumVal 110, NaN,
          NumVal 0.55, NaN, NaN, NumVal 33, NumVal 4,
          NumVal 0.61, StrVal ''BOS'', IntVal bos, IntVal 1,
          StrVal ''NBA'', DateVal ''2016-10-26'', BoolVal (lal > bos)],
         [NumVal 240, NumVal 240, NumVal 110, NaN, NumVal 0.55, NaN,
          NaN, NumVal 33, NumVal 4, NumVal 0.61, StrVal ''BOS'',
          IntVal bos, IntVal 1, NumVal 240, NumVal 240, NumVal 104, NaN,
          NumVal 0.55, NaN, NaN, NumVal 30, NumVal 4,
          NumVal 0.61, StrVal ''LAL'', IntVal lal, IntVal 0,
          StrVal ''NBA'', DateVal ''2016-10-26'', BoolVal (bos > lal)]]\<rparr>"

definition example_columns :: "string list" where
  "example_columns = [''mp'', ''pts'', ''+/-'', ''ts%'', ''mp_max'', ''pts_max'', ''+/-_max'', ''ts%_max'']"

text \<open>
  A box score whose basic tables have a column named \<open>Season\<close>, and one whose basic
  tables have a column named \<open>PTS_max\<close> beside the column \<open>PTS\<close>.
\<close>

definition season_game :: document where
  "season_game =
     \<lparr>path = ''data/scores/201610260BOS.html'',
      line_score = [(''LAL'', 104), (''BOS'', 110)],
      stat_tables =
        [(''box-LAL-game-basic'', \<lparr>stat_columns = [''Season''], stat_rows = [[Some 7], [Some 7]]\<rparr>),
         (''box-LAL-game-advanced'', \<lparr>stat_columns = [''TS%''], stat_rows = [[Some 0.5], [Some 0.5]]\<rparr>),
         (''box-BOS-game-basic'', \<lparr>stat_columns = [''Season''], stat_rows = [[Some 9], [Some 9]]\<rparr>),
         (''box-BOS-game-advanced'', \<lparr>stat_columns = [''TS%''], stat_rows = [[Some 0.5], [Some 0.5]]\<rparr>)],
      bottom_nav = [[Some ''/leagues/'', Some ''/leagues/NBA_2017.html'']]\<rparr>"

definition season_frame :: frame where
  "season_frame =
     \<lparr>columns =
        [''season'', ''ts%'', ''season_max'', ''ts%_max'', ''team'', ''total'', ''home'',
         ''season_opp'', ''ts%_opp'', ''season_max_opp'', ''ts%_max_opp'', ''team_opp'',
         ''total_opp'', ''home_opp'', ''date'', ''won''],
      rows =
        [[StrVal ''NBA'', NumVal 0.5, NumVal 7, NumVal 0.5, StrVal ''LAL'', IntVal 104, IntVal 0,
          NumVal 9, NumVal 0.5, NumVal 9, NumVal 0.5, StrVal ''BOS'', IntVal 110, IntVal 1,
          DateVal ''2016-10-26'', BoolVal False],
         [StrVal ''NBA'', NumVal 0.5, NumVal 9, NumVal 0.5, StrVal ''BOS'', IntVal 110, IntVal 1,
          NumVal 7, NumVal 0.5, NumVal 7, NumVal 0.5, StrVal ''LAL'', IntVal 104, IntVal 0,
          DateVal ''2016-10-26'', BoolVal True]]\<rparr>"

definition clash_basic :: stat_table where
  "clash_basic =
     \<lparr>stat_columns = [''PTS'', ''PTS_max''],
      stat_rows = [[Some 30, Some 1], [Some 21, Some 2], [Some 104, Some 7]]\<rparr>"

definition clash_advanced :: stat_table where
  "clash_advanced =
     \<lparr>stat_columns = [''TS%''], stat_rows = [[Some 0.5], [Some 0.25], [Some 0.5]]\<rparr>"

definition clash_game :: document where
  "clash_game =
     \<lparr>path = ''data/scores/201610260BOS.html'',
      line_score = [(''LAL'', 104), (''BOS'', 110)],
      stat_tables =
        [(''box-LAL-game-basic'', clash_basic), (''box-LAL-game-advanced'', clash_advanced),
         (''box-BOS-game-basic'', clash_basic), (''box-BOS-game-advanced'', clash_advanced)],
      bottom_nav = [[Some ''/leagues/'', Some ''/leagues/NBA_2017.html'']]\<rparr>"

definition clash_summary :: series where
  "clash_summary =
     [(''pts'', Some 104), (''pts_max'', Some 7), (''pts_max'', Some 30), (''ts%'', Some 0.5),
      (''pts_max_max'', Some 2), (''ts%_max'', Some 0.5)]"

definition clash_frame :: frame where
  "clash_frame =
     \<lparr>columns =
        [''pts'', ''pts_max'', ''pts_max'', ''ts%'', ''pts_max_max'', ''ts%_max'', ''team'',
         ''total'', ''home'', ''pts_opp'', ''pts_max_opp'', ''pts_max_opp'', ''ts%_opp'',
         ''pts_max_max_opp'', ''ts%_max_opp'', ''team_opp'', ''total_opp'', ''home_opp'',
         ''season'', ''date'', ''won''],
      rows =
        [[NumVal 104, NumVal 7, NumVal 30, NumVal 0.5, NumVal 2, NumVal 0.5, StrVal ''LAL'',
          IntVal 104, IntVal 0, NumVal 104, NumVal 7, NumVal 30, NumVal 0.5, NumVal 2,
          NumVal 0.5, StrVal ''BOS'', IntVal 110, IntVal 1,
          StrVal ''NBA'', DateVal ''2016-10-26'', BoolVal False],
         [NumVal 104, NumVal 7, NumVal 30, NumVal 0.5, NumVal 2, NumVal 0.5, StrVal ''BOS'',
          IntVal 110, IntVal 1, NumVal 104, NumVal 7, NumVal 30, NumVal 0.5, NumVal 2,
          NumVal 0.5, StrVal ''LAL'', IntVal 104, IntVal 0,
          StrVal ''NBA'', DateVal ''2016-10-26'', BoolVal True]]\<rparr>"

section \<open>Properties of the fetcher\<close>

lemma attempt_loop_all_timeout:
  "(\<forall>i \<in> set as. net url selector i = Timeout) \<Longrightarrow>
   attempt_loop net url selector sleep as = (Inr None, attempt_events url selector sleep as)"
  by (induction as) (simp_all add: attempt_events_def)

lemma gotos_attempt_events:
  "gotos (attempt_events url selector sleep as) = map (\<lambda>i. (url, selector, i)) as"
  by (induction as) (simp_all add: attempt_events_def)

lemma delays_attempt_events:
  "delays (attempt_events url selector sleep as) = map (\<lambda>i. sleep * i) as"
  by (induction as) (simp_all add: attempt_events_def)

lemma attempt_loop_events:
  "\<exists>n \<le> length as. snd (attempt_loop net url selector sleep as) =
      attempt_events url selector sleep (take n as)"
proof (induction as)
  case Nil
  show ?case by (simp add: attempt_events_def)
next
  case (Cons a as)
  then obtain n where n: "n \<le> length as"
    "snd (attempt_loop net url selector sleep as) = attempt_events url selector sleep (take n as)"
    by blast
  show ?case
  proof (cases "net url selector a")
    case Timeout
    then have "snd (attempt_loop net url selector sleep (a # as)) =
        attempt_events url selector sleep (take (Suc n) (a # as))"
      using n(2) by (simp add: attempt_events_def)
    moreover have "Suc n \<le> length (a # as)" using n(1) by simp
    ultimately show ?thesis by blast
  next
    case Failure
    then have "snd (attempt_loop net url selector sleep (a # as)) =
        attempt_events url selector sleep (take (Suc 0) (a # as))"
      by (simp add: attempt_events_def)
    moreover have "Suc 0 \<le> length (a # as)" by simp
    ultimately show ?thesis by blast
  next
    case (Rendered html)
    then have "snd (attempt_loop net url selector sleep (a # as)) =
        attempt_events url selector sleep (take (Suc 0) (a # as))"
      by (simp add: attempt_events_def)
    moreover have "Suc 0 \<le> length (a # as)" by simp
    ultimately show ?thesis by blast
  qed
qed

lemma take_upt_from_one:
  assumes "n \<le> k"
  shows "take n [1 ..< k + 1] = [1 ..< n + 1]"
proof -
  have "1 + n \<le> k + 1" using assms by simp
  then have "take n [1 ..< k + 1] = [1 ..< 1 + n]" by (rule take_upt)
  then show ?thesis by (simp only: add.commute)
qed

lemma sorted_linear: "sorted (map (\<lambda>i. (d::nat) * i) [m ..< n])"
proof -
  have "sorted_wrt (\<le>) [m ..< n]" using sorted_upt [of m n] by simp
  then have "sorted_wrt (\<lambda>x y. d * x \<le> d * y) [m ..< n]"
    by (rule sorted_wrt_mono_rel [rotated]) simp
  then show ?thesis by (simp add: sorted_map)
qed

lemma fetch_html_content_events:
  "\<exists>n \<le> retries. snd (fetch_html_content net url selector sleep retries) =
      attempt_events url selector sleep [1 ..< n + 1]"
proof -
  obtain n where n: "n \<le> length [1 ..< retries + 1]"
    "snd (fetch_html_content net url selector sleep retries) =
       attempt_events url selector sleep (take n [1 ..< retries + 1])"
    unfolding fetch_html_content_def using attempt_loop_events by blast
  have "length [1 ..< retries + 1] = retries" by (simp only: length_upt add_diff_cancel_right')
  then have le: "n \<le> retries" using n(1) by (simp only:)
  have "snd (fetch_html_content net url selector sleep retries) =
       attempt_events url selector sleep [1 ..< n + 1]"
    using n(2) take_upt_from_one [OF le] by simp
  then show ?thesis using le by blast
qed

lemma attempt_loop_prefix:
  "snd (attempt_loop net url selector sleep as) =
     attempt_events url selector sleep
       (takeWhile (\<lambda>i. net url selector i = Timeout) as
        @ take 1 (dropWhile (\<lambda>i. net url selector i = Timeout) as))"
proof (induction as)
  case Nil
  show ?case by (simp add: attempt_events_def)
next
  case (Cons a as)
  show ?case using Cons by (cases "net url selector a") (simp_all add: attempt_events_def)
qed

lemma prefix_take:
  "takeWhile P as @ take 1 (dropWhile P as) =
     take (if length (takeWhile P as) = length as then length as else length (takeWhile P as) + 1) as"
proof (induction as)
  case Nil
  show ?case by simp
next
  case (Cons a as)
  show ?case using Cons by (cases "P a") simp_all
qed

lemma upt_length: "length [1 ..< retries + 1] = retries"
  by (simp only: length_upt add_diff_cancel_right')

lemma upt_nth: "k < retries \<Longrightarrow> [1 ..< retries + 1] ! k = k + 1"
proof -
  assume "k < retries"
  then have "1 + k < retries + 1" by simp
  then have "[1 ..< retries + 1] ! k = 1 + k" by (rule nth_upt)
  then show ?thesis by (simp only: add.commute)
qed

lemma attempts_made_le: "attempts_made net url selector retries \<le> retries"
proof -
  let ?tw = "takeWhile (\<lambda>i. net url selector i = Timeout) [1 ..< retries + 1]"
  have "length ?tw \<le> length [1 ..< retries + 1]" by (rule length_takeWhile_le)
  then have "length ?tw \<le> retries" by (simp only: upt_length)
  then show ?thesis unfolding attempts_made_def Let_def by (simp del: upt_Suc)
qed

lemma attempts_made_pos: "0 < retries \<Longrightarrow> 0 < attempts_made net url selector retries"
  unfolding attempts_made_def Let_def by (simp del: upt_Suc)

lemma fetch_html_content_trace:
  "snd (fetch_html_content net url selector sleep retries) =
     attempt_events url selector sleep [1 ..< attempts_made net url selector retries + 1]"
proof -
  let ?as = "[1 ..< retries + 1]"
  let ?P = "\<lambda>i. net url selector i = Timeout"
  have l: "length ?as = retries" by (rule upt_length)
  have "takeWhile ?P ?as @ take 1 (dropWhile ?P ?as) =
      take (attempts_made net url selector retries) ?as"
    unfolding attempts_made_def Let_def using prefix_take [of ?P ?as] l by (simp del: upt_Suc)
  also have "\<dots> = [1 ..< attempts_made net url selector retries + 1]"
    using attempts_made_le by (rule take_upt_from_one)
  finally show ?thesis unfolding fetch_html_content_def by (simp only: attempt_loop_prefix)
qed

lemma attempts_made_timeouts:
  assumes "1 \<le> i" and "i < attempts_made net url selector retries"
  shows "net url selector i = Timeout"
proof -
  let ?as = "[1 ..< retries + 1]"
  let ?P = "\<lambda>i. net url selector i = Timeout"
  have "i \<le> length (takeWhile ?P ?as)"
    using assms(2) unfolding attempts_made_def Let_def by (simp del: upt_Suc split: if_splits)
  then have j: "i - 1 < length (takeWhile ?P ?as)" using assms(1) by simp
  then have "?P (takeWhile ?P ?as ! (i - 1))" by (rule nth_mem [THEN set_takeWhileD, THEN conjunct2])
  moreover have "takeWhile ?P ?as ! (i - 1) = ?as ! (i - 1)" using j by (rule takeWhile_nth)
  moreover have "i - 1 < length ?as" using j length_takeWhile_le [of ?P ?as] by (rule less_le_trans)
  then have "i - 1 < retries" by (simp only: upt_length)
  then have "?as ! (i - 1) = i - 1 + 1" by (rule upt_nth)
  then have "?as ! (i - 1) = i" using assms(1) by (simp del: upt_Suc)
  ultimately show ?thesis by (simp del: upt_Suc)
qed

lemma attempts_made_last:
  assumes "attempts_made net url selector retries < retries"
  shows "net url selector (attempts_made net url selector retries) \<noteq> Timeout"
proof -
  let ?as = "[1 ..< retries + 1]"
  let ?P = "\<lambda>i. net url selector i = Timeout"
  let ?k = "length (takeWhile ?P ?as)"
  have n: "attempts_made net url selector retries = ?k + 1" and k: "?k < retries"
    using assms unfolding attempts_made_def Let_def by (simp_all del: upt_Suc split: if_splits)
  have "?k < length ?as" using k by (simp only: upt_length)
  then have "\<not> ?P (?as ! ?k)" by (rule nth_length_takeWhile)
  moreover have "?as ! ?k = ?k + 1" using k by (rule upt_nth)
  ultimately show ?thesis unfolding n by (simp del: upt_Suc)
qed

lemma attempt_events_nth:
  assumes "1 \<le> i" and "i \<le> n"
  shows "attempt_events url selector sleep [1 ..< n + 1] ! (2 * (i - 1)) = Sleep (sleep * i)"
    and "attempt_events url selector sleep [1 ..< n + 1] ! (2 * (i - 1) + 1) = Goto url selector i"
proof -
  have g: "\<And>m k. k < n \<Longrightarrow> m \<le> k \<Longrightarrow>
      attempt_events url selector sleep [Suc m ..< Suc n] ! (2 * (k - m)) = Sleep (sleep * Suc k) \<and>
      attempt_events url selector sleep [Suc m ..< Suc n] ! (2 * (k - m) + 1) = Goto url selector (Suc k)"
  proof -
    fix m k
    assume "k < n" "m \<le> k"
    then show "attempt_events url selector sleep [Suc m ..< Suc n] ! (2 * (k - m)) = Sleep (sleep * Suc k) \<and>
      attempt_events url selector sleep [Suc m ..< Suc n] ! (2 * (k - m) + 1) = Goto url selector (Suc k)"
    proof (induction "k - m" arbitrary: m)
      case 0
      then have "m = k" by simp
      then have "[Suc m ..< Suc n] = Suc k # [Suc (Suc k) ..< Suc n]"
        using 0 by (simp add: upt_conv_Cons)
      then show ?case using 0 by (simp add: attempt_events_def)
    next
      case (Suc d)
      then have lt: "m < k" by simp
      have u: "[Suc m ..< Suc n] = Suc m # [Suc (Suc m) ..< Suc n]"
        using Suc.prems lt by (simp add: upt_conv_Cons)
      have d: "d = k - Suc m" using Suc.hyps(2) by simp
      have ih: "attempt_events url selector sleep [Suc (Suc m) ..< Suc n] ! (2 * (k - Suc m)) = Sleep (sleep * Suc k) \<and>
        attempt_events url selector sleep [Suc (Suc m) ..< Suc n] ! (2 * (k - Suc m) + 1) = Goto url selector (Suc k)"
        using Suc.hyps(1) [OF d Suc.prems(1)] lt by simp
      have e: "k - m = Suc (k - Suc m)" using lt by simp
      show ?case unfolding u e using ih by (simp add: attempt_events_def)
    qed
  qed
  obtain k where k: "i = Suc k" using assms(1) by (cases i) auto
  have "k < n" using assms(2) k by simp
  from g [OF this, of 0] show
    "attempt_events url selector sleep [1 ..< n + 1] ! (2 * (i - 1)) = Sleep (sleep * i)"
    "attempt_events url selector sleep [1 ..< n + 1] ! (2 * (i - 1) + 1) = Goto url selector i"
    using k by simp_all
qed

lemma slow_net_made: "attempts_made slow_net ''u'' ''#content'' 12 = 3"
  by (simp add: attempts_made_def slow_net_def upt_rec)

section \<open>Properties of the crawl\<close>

lemma dir_le_refl: "dir_le d d"
  by (simp add: dir_le_def)

lemma dir_le_trans: "dir_le a b \<Longrightarrow> dir_le b c \<Longrightarrow> dir_le a c"
  by (auto simp: dir_le_def)

lemma store_le_refl: "store_le s s"
  by (simp add: store_le_def dir_le_refl)

lemma store_le_trans: "store_le a b \<Longrightarrow> store_le b c \<Longrightarrow> store_le a c"
  unfolding store_le_def using dir_le_trans by blast

lemma path_exists_mono: "dir_le d d' \<Longrightarrow> path_exists d n \<Longrightarrow> path_exists d' n"
  by (auto simp: dir_le_def path_exists_def)

lemma listdir_write_file: "set (listdir (write_file d n c)) = insert n (set (listdir d))"
  by (induction d n c rule: write_file.induct) (auto simp: listdir_def)

lemma map_of_write_file: "map_of (write_file d n c) = (map_of d)(n \<mapsto> c)"
  by (induction d n c rule: write_file.induct) (auto simp: fun_eq_iff)

lemma dir_le_write_file: "n \<notin> set (listdir d) \<Longrightarrow> dir_le d (write_file d n c)"
  by (auto simp: dir_le_def listdir_write_file map_of_write_file)

lemma for_each_le:
  assumes refl: "\<And>s. le s s"
      and trans: "\<And>a b c. le a b \<Longrightarrow> le b c \<Longrightarrow> le a c"
      and body: "\<And>x s r s' evs. body x s = (r, s', evs) \<Longrightarrow> le s s'"
  shows "for_each body xs s = (r, s', evs) \<Longrightarrow> le s s'"
proof (induction xs arbitrary: s r s' evs)
  case Nil
  then show ?case using refl by simp
next
  case (Cons x xs)
  obtain r1 s1 e1 where b: "body x s = (r1, s1, e1)" by (cases "body x s") auto
  have l1: "le s s1" using body [OF b] .
  show ?case
  proof (cases r1)
    case (Inl e)
    then show ?thesis using Cons.prems b l1 by simp
  next
    case (Inr u)
    obtain r2 s2 e2 where f: "for_each body xs s1 = (r2, s2, e2)"
      by (cases "for_each body xs s1") auto
    have "le s1 s2" using Cons.IH [OF f] .
    moreover have "s' = s2" using Cons.prems b Inr f by simp
    ultimately show ?thesis using l1 trans by blast
  qed
qed

lemma save_page_mono: "save_page net sel u d = (r, d', evs) \<Longrightarrow> dir_le d d'"
  by (auto simp: save_page_def dir_le_refl path_exists_def
      intro: dir_le_write_file split: if_splits prod.splits sum.splits option.splits)

lemma save_page_ok:
  assumes "save_page net sel u d = (Inr (), d', evs)" and "dir_le d' t"
  shows "\<exists>evs'. save_page net sel u t = (Inr (), t, evs')"
proof (cases "path_exists t (last_segment u)")
  case True
  then show ?thesis by (simp add: save_page_def)
next
  case False
  then have nd': "\<not> path_exists d' (last_segment u)"
    using assms(2) path_exists_mono by blast
  have "dir_le d d'" using assms(1) by (rule save_page_mono)
  then have nd: "\<not> path_exists d (last_segment u)"
    using nd' path_exists_mono by blast
  show ?thesis using assms(1) nd nd' False
    by (auto simp: save_page_def path_exists_def listdir_write_file
        split: prod.splits sum.splits option.splits if_splits)
qed

lemma save_page_err:
  "save_page net sel u d = (Inl e, d', evs) \<Longrightarrow> d' = d"
  by (auto simp: save_page_def split: if_splits prod.splits sum.splits option.splits)

lemma for_each_ok:
  assumes refl: "\<And>s. le s s"
      and trans: "\<And>a b c. le a b \<Longrightarrow> le b c \<Longrightarrow> le a c"
      and mono: "\<And>x s r s' evs. body x s = (r, s', evs) \<Longrightarrow> le s s'"
      and ok: "\<And>x s s' evs t. body x s = (Inr (), s', evs) \<Longrightarrow> le s' t \<Longrightarrow>
                 \<exists>evs'. body x t = (Inr (), t, evs')"
  shows "for_each body xs s = (Inr (), s', evs) \<Longrightarrow> le s' t \<Longrightarrow>
         \<exists>evs'. for_each body xs t = (Inr (), t, evs')"
proof (induction xs arbitrary: s s' evs)
  case Nil
  then show ?case by simp
next
  case (Cons x xs)
  obtain r1 s1 e1 where b: "body x s = (r1, s1, e1)" by (cases "body x s") auto
  obtain r2 s2 e2 where f: "for_each body xs s1 = (r2, s2, e2)"
    by (cases "for_each body xs s1") auto
  have r1: "r1 = Inr ()" using Cons.prems(1) b by (cases r1) auto
  have r2: "r2 = Inr ()" and s2: "s2 = s'" using Cons.prems(1) b f r1 by auto
  have f_ok: "for_each body xs s1 = (Inr (), s', e2)" using f r2 s2 by simp
  have "le s1 s'" using for_each_le [of le body xs s1, OF refl trans mono f_ok] .
  then have "le s1 t" using Cons.prems(2) trans by blast
  then obtain e3 where b': "body x t = (Inr (), t, e3)"
    using ok b r1 by blast
  obtain e4 where f': "for_each body xs t = (Inr (), t, e4)"
    using Cons.IH [OF f_ok Cons.prems(2)] by blast
  show ?case using b' f' by simp
qed

lemma for_each_err:
  assumes refl: "\<And>s. le s s"
      and trans: "\<And>a b c. le a b \<Longrightarrow> le b c \<Longrightarrow> le a c"
      and mono: "\<And>x s r s' evs. body x s = (r, s', evs) \<Longrightarrow> le s s'"
      and ok: "\<And>x s s' evs t. body x s = (Inr (), s', evs) \<Longrightarrow> le s' t \<Longrightarrow>
                 \<exists>evs'. body x t = (Inr (), t, evs')"
      and err: "\<And>x s e s' evs. body x s = (Inl e, s', evs) \<Longrightarrow>
                 \<exists>evs'. body x s' = (Inl e, s', evs')"
  shows "for_each body xs s = (Inl e, s', evs) \<Longrightarrow>
         \<exists>evs'. for_each body xs s' = (Inl e, s', evs')"
proof (induction xs arbitrary: s s' evs)
  case Nil
  then show ?case by simp
next
  case (Cons x xs)
  obtain r1 s1 e1 where b: "body x s = (r1, s1, e1)" by (cases "body x s") auto
  show ?case
  proof (cases r1)
    case (Inl e')
    then have "e' = e" "s1 = s'" using Cons.prems b by auto
    then obtain e2 where "body x s' = (Inl e, s', e2)" using err b Inl by blast
    then show ?thesis by simp
  next
    case (Inr u)
    obtain r2 s2 e2 where f: "for_each body xs s1 = (r2, s2, e2)"
      by (cases "for_each body xs s1") auto
    have r2: "r2 = Inl e" and s2: "s2 = s'" using Cons.prems b f Inr by auto
    have f_err: "for_each body xs s1 = (Inl e, s', e2)" using f r2 s2 by simp
    have "le s1 s'" using for_each_le [of le body xs s1, OF refl trans mono f_err] .
    moreover have "body x s = (Inr (), s1, e1)" using b Inr by simp
    ultimately obtain e3 where b': "body x s' = (Inr (), s', e3)"
      using ok by blast
    obtain e4 where f': "for_each body xs s' = (Inl e, s', e4)"
      using Cons.IH [OF f_err] by blast
    show ?thesis using b' f' by simp
  qed
qed

text \<open>Re-running a loop from the state it reached gives the same result and changes nothing.\<close>

lemma for_each_rerun:
  assumes refl: "\<And>s. le s s"
      and trans: "\<And>a b c. le a b \<Longrightarrow> le b c \<Longrightarrow> le a c"
      and mono: "\<And>x s r s' evs. body x s = (r, s', evs) \<Longrightarrow> le s s'"
      and ok: "\<And>x s s' evs t. body x s = (Inr (), s', evs) \<Longrightarrow> le s' t \<Longrightarrow>
                 \<exists>evs'. body x t = (Inr (), t, evs')"
      and err: "\<And>x s e s' evs. body x s = (Inl e, s', evs) \<Longrightarrow>
                 \<exists>evs'. body x s' = (Inl e, s', evs')"
  shows "for_each body xs s = (r, s', evs) \<Longrightarrow>
         \<exists>evs'. for_each body xs s' = (r, s', evs')"
proof (cases r)
  case (Inl e)
  assume "for_each body xs s = (r, s', evs)"
  then have f: "for_each body xs s = (Inl e, s', evs)" using Inl by simp
  have "\<exists>evs'. for_each body xs s' = (Inl e, s', evs')"
    apply (rule for_each_err [where le = le and body = body and s = s and evs = evs])
         apply (fact refl)
        apply (erule trans, assumption)
       apply (erule mono)
      apply (erule ok, assumption)
     apply (erule err)
    apply (fact f)
    done
  then show ?thesis using Inl by simp
next
  case (Inr u)
  assume "for_each body xs s = (r, s', evs)"
  then have f: "for_each body xs s = (Inr (), s', evs)" using Inr by simp
  have "\<exists>evs'. for_each body xs s' = (Inr (), s', evs')"
    apply (rule for_each_ok [where le = le and body = body and s = s and evs = evs and s' = s'])
         apply (fact refl)
        apply (erule trans, assumption)
       apply (erule mono)
      apply (erule ok, assumption)
     apply (fact f)
    apply (fact refl)
    done
  then show ?thesis using Inr by simp
qed

lemma save_schedule_page_mono:
  "save_schedule_page net u s = (r, s', evs) \<Longrightarrow> store_le s s'"
  by (auto simp: save_schedule_page_def store_le_def dir_le_refl
      dest: save_page_mono split: prod.splits)

lemma save_schedule_page_ok:
  assumes "save_schedule_page net u s = (Inr (), s', evs)" and "store_le s' t"
  shows "\<exists>evs'. save_schedule_page net u t = (Inr (), t, evs')"
proof -
  obtain d' where p: "save_page net ''#all_schedule'' u (standings_dir s) = (Inr (), d', evs)"
    and s': "s' = s\<lparr>standings_dir := d'\<rparr>"
    using assms(1) by (auto simp: save_schedule_page_def split: prod.splits)
  have "dir_le d' (standings_dir t)" using assms(2) s' by (simp add: store_le_def)
  then obtain evs' where
    "save_page net ''#all_schedule'' u (standings_dir t) = (Inr (), standings_dir t, evs')"
    using save_page_ok [OF p] by blast
  then show ?thesis by (simp add: save_schedule_page_def)
qed

lemma save_schedule_page_err:
  assumes "save_schedule_page net u s = (Inl e, s', evs)"
  shows "\<exists>evs'. save_schedule_page net u s' = (Inl e, s', evs')"
proof -
  obtain d' where p: "save_page net ''#all_schedule'' u (standings_dir s) = (Inl e, d', evs)"
    and s': "s' = s\<lparr>standings_dir := d'\<rparr>"
    using assms by (auto simp: save_schedule_page_def split: prod.splits)
  have "d' = standings_dir s" using p by (rule save_page_err)
  then have "s' = s" using s' by simp
  then show ?thesis using assms by blast
qed

lemma save_box_score_mono:
  "save_box_score net u s = (r, s', evs) \<Longrightarrow> store_le s s'"
  by (auto simp: save_box_score_def store_le_def dir_le_refl
      dest: save_page_mono split: prod.splits)

lemma save_box_score_ok:
  assumes "save_box_score net u s = (Inr (), s', evs)" and "store_le s' t"
  shows "\<exists>evs'. save_box_score net u t = (Inr (), t, evs')"
proof -
  obtain d' where p: "save_page net ''#content'' u (scores_dir s) = (Inr (), d', evs)"
    and s': "s' = s\<lparr>scores_dir := d'\<rparr>"
    using assms(1) by (auto simp: save_box_score_def split: prod.splits)
  have "dir_le d' (scores_dir t)" using assms(2) s' by (simp add: store_le_def)
  then obtain evs' where
    "save_page net ''#content'' u (scores_dir t) = (Inr (), scores_dir t, evs')"
    using save_page_ok [OF p] by blast
  then show ?thesis by (simp add: save_box_score_def)
qed

lemma save_box_score_err:
  assumes "save_box_score net u s = (Inl e, s', evs)"
  shows "\<exists>evs'. save_box_score net u s' = (Inl e, s', evs')"
proof -
  obtain d' where p: "save_page net ''#content'' u (scores_dir s) = (Inl e, d', evs)"
    and s': "s' = s\<lparr>scores_dir := d'\<rparr>"
    using assms by (auto simp: save_box_score_def split: prod.splits)
  have "d' = scores_dir s" using p by (rule save_page_err)
  then have "s' = s" using s' by simp
  then show ?thesis using assms by blast
qed

lemma schedule_loop_mono:
  "for_each (save_schedule_page net) urls s = (r, s', evs) \<Longrightarrow> store_le s s'"
  by (rule for_each_le [where le = store_le and body = "save_schedule_page net"])
     (auto intro: store_le_refl store_le_trans save_schedule_page_mono)

lemma schedule_loop_ok:
  "for_each (save_schedule_page net) urls s = (Inr (), s', evs) \<Longrightarrow> store_le s' t \<Longrightarrow>
   \<exists>evs'. for_each (save_schedule_page net) urls t = (Inr (), t, evs')"
  apply (rule for_each_ok [where le = store_le and body = "save_schedule_page net" and s = s])
       apply (rule store_le_refl)
      apply (erule store_le_trans, assumption)
     apply (erule save_schedule_page_mono)
    apply (erule save_schedule_page_ok, assumption)
   apply assumption+
  done

lemma schedule_loop_err:
  "for_each (save_schedule_page net) urls s = (Inl e, s', evs) \<Longrightarrow>
   \<exists>evs'. for_each (save_schedule_page net) urls s' = (Inl e, s', evs')"
  apply (rule for_each_err [where le = store_le and body = "save_schedule_page net" and s = s])
       apply (rule store_le_refl)
      apply (erule store_le_trans, assumption)
     apply (erule save_schedule_page_mono)
    apply (erule save_schedule_page_ok, assumption)
   apply (erule save_schedule_page_err)
  apply assumption
  done

lemma box_loop_mono:
  "for_each (save_box_score net) urls s = (r, s', evs) \<Longrightarrow> store_le s s'"
  by (rule for_each_le [where le = store_le and body = "save_box_score net"])
     (auto intro: store_le_refl store_le_trans save_box_score_mono)

lemma box_loop_ok:
  "for_each (save_box_score net) urls s = (Inr (), s', evs) \<Longrightarrow> store_le s' t \<Longrightarrow>
   \<exists>evs'. for_each (save_box_score net) urls t = (Inr (), t, evs')"
  apply (rule for_each_ok [where le = store_le and body = "save_box_score net" and s = s])
       apply (rule store_le_refl)
      apply (erule store_le_trans, assumption)
     apply (erule save_box_score_mono)
    apply (erule save_box_score_ok, assumption)
   apply assumption+
  done

lemma box_loop_err:
  "for_each (save_box_score net) urls s = (Inl e, s', evs) \<Longrightarrow>
   \<exists>evs'. for_each (save_box_score net) urls s' = (Inl e, s', evs')"
  apply (rule for_each_err [where le = store_le and body = "save_box_score net" and s = s])
       apply (rule store_le_refl)
      apply (erule store_le_trans, assumption)
     apply (erule save_box_score_mono)
    apply (erule save_box_score_ok, assumption)
   apply (erule save_box_score_err)
  apply assumption
  done

lemma scrape_season_data_mono:
  "scrape_season_data net fa season s = (r, s', evs) \<Longrightarrow> store_le s s'"
  by (auto simp: scrape_season_data_def store_le_refl dest: schedule_loop_mono
      split: prod.splits sum.splits if_splits)

lemma scrape_season_data_ok:
  assumes "scrape_season_data net fa season s = (Inr (), s', evs)" and "store_le s' t"
  shows "\<exists>evs'. scrape_season_data net fa season t = (Inr (), t, evs')"
proof -
  obtain r0 e0 where f: "fetch_default net (season_url season) ''#content .filter'' = (r0, e0)"
    by (cases "fetch_default net (season_url season) ''#content .filter''") auto
  show ?thesis
  proof (cases r0)
    case (Inl e)
    then show ?thesis using assms(1) f by (simp add: scrape_season_data_def)
  next
    case (Inr html)
    show ?thesis
    proof (cases "truthy html")
      case False
      then show ?thesis using f Inr by (simp add: scrape_season_data_def)
    next
      case True
      show ?thesis
      proof (cases "standings_pages (fa (the html))")
        case (Inl e)
        then show ?thesis using assms(1) f Inr True by (simp add: scrape_season_data_def)
      next
        case (Inr urls)
        obtain e1 where l: "for_each (save_schedule_page net) urls s = (Inr (), s', e1)"
          using assms(1) f \<open>r0 = Inr html\<close> True Inr
          by (auto simp: scrape_season_data_def split: prod.splits)
        obtain e2 where "for_each (save_schedule_page net) urls t = (Inr (), t, e2)"
          using schedule_loop_ok [OF l assms(2)] by blast
        then show ?thesis using f \<open>r0 = Inr html\<close> True Inr
          by (simp add: scrape_season_data_def)
      qed
    qed
  qed
qed

lemma scrape_season_data_err:
  assumes "scrape_season_data net fa season s = (Inl e, s', evs)"
  shows "\<exists>evs'. scrape_season_data net fa season s' = (Inl e, s', evs')"
proof -
  obtain r0 e0 where f: "fetch_default net (season_url season) ''#content .filter'' = (r0, e0)"
    by (cases "fetch_default net (season_url season) ''#content .filter''") auto
  show ?thesis
  proof (cases r0)
    case (Inl e')
    then show ?thesis using assms f by (simp add: scrape_season_data_def)
  next
    case (Inr html)
    show ?thesis
    proof (cases "truthy html")
      case False
      then show ?thesis using assms f Inr by (simp add: scrape_season_data_def)
    next
      case True
      show ?thesis
      proof (cases "standings_pages (fa (the html))")
        case (Inl e')
        then show ?thesis using assms f Inr True by (simp add: scrape_season_data_def)
      next
        case (Inr urls)
        obtain e1 where l: "for_each (save_schedule_page net) urls s = (Inl e, s', e1)"
          using assms f \<open>r0 = Inr html\<close> True Inr
          by (auto simp: scrape_season_data_def split: prod.splits)
        obtain e2 where "for_each (save_schedule_page net) urls s' = (Inl e, s', e2)"
          using schedule_loop_err [OF l] by blast
        then show ?thesis using f \<open>r0 = Inr html\<close> True Inr
          by (simp add: scrape_season_data_def)
      qed
    qed
  qed
qed

lemma save_box_score_standings:
  "save_box_score net u s = (r, s', evs) \<Longrightarrow> standings_dir s' = standings_dir s"
  by (auto simp: save_box_score_def split: prod.splits)

lemma box_loop_standings:
  "for_each (save_box_score net) urls s = (r, s', evs) \<Longrightarrow> standings_dir s' = standings_dir s"
  by (rule for_each_le [where le = "\<lambda>a b. standings_dir b = standings_dir a"
        and body = "save_box_score net"])
     (auto dest: save_box_score_standings)

lemma scrape_game_data_standings:
  "scrape_game_data net fa f s = (r, s', evs) \<Longrightarrow> standings_dir s' = standings_dir s"
  by (auto simp: scrape_game_data_def dest: box_loop_standings split: sum.splits)

lemma game_loop_standings:
  "for_each (scrape_game_data net fa) fs s = (r, s', evs) \<Longrightarrow>
   standings_dir s' = standings_dir s"
  by (rule for_each_le [where le = "\<lambda>a b. standings_dir b = standings_dir a"
        and body = "scrape_game_data net fa"])
     (auto dest: scrape_game_data_standings)

lemma scrape_game_data_mono:
  "scrape_game_data net fa f s = (r, s', evs) \<Longrightarrow> store_le s s'"
  by (auto simp: scrape_game_data_def store_le_refl dest: box_loop_mono split: sum.splits)

lemma read_file_mono:
  assumes "read_file d f = Inr html" and "dir_le d d'"
  shows "read_file d' f = Inr html"
proof -
  have m: "map_of d f = Some html"
    using assms(1) by (auto simp: read_file_def split: option.splits)
  then have "f \<in> set (listdir d)"
    by (metis listdir_def map_of_eq_None_iff option.distinct(1) set_map)
  then have "map_of d' f = map_of d f" using assms(2) by (simp add: dir_le_def)
  then show ?thesis using m by (simp add: read_file_def)
qed

lemma scrape_game_data_ok:
  assumes "scrape_game_data net fa f s = (Inr (), s', evs)" and "store_le s' t"
  shows "\<exists>evs'. scrape_game_data net fa f t = (Inr (), t, evs')"
proof -
  obtain html where rd: "read_file (standings_dir s) f = Inr html"
    using assms(1) by (cases "read_file (standings_dir s) f") (auto simp: scrape_game_data_def)
  have l: "for_each (save_box_score net) (box_score_urls (fa html)) s = (Inr (), s', evs)"
    using assms(1) rd by (simp add: scrape_game_data_def)
  have "store_le s s'" using assms(1) by (rule scrape_game_data_mono)
  then have "store_le s t" using assms(2) store_le_trans by blast
  then have rd': "read_file (standings_dir t) f = Inr html"
    using read_file_mono [OF rd] by (simp add: store_le_def)
  obtain e2 where "for_each (save_box_score net) (box_score_urls (fa html)) t = (Inr (), t, e2)"
    using box_loop_ok [OF l assms(2)] by blast
  then show ?thesis using rd' by (simp add: scrape_game_data_def)
qed

lemma scrape_game_data_err:
  assumes "scrape_game_data net fa f s = (Inl e, s', evs)"
  shows "\<exists>evs'. scrape_game_data net fa f s' = (Inl e, s', evs')"
proof (cases "read_file (standings_dir s) f")
  case (Inl e')
  then have "s' = s" using assms by (simp add: scrape_game_data_def)
  then show ?thesis using assms by blast
next
  case (Inr html)
  have l: "for_each (save_box_score net) (box_score_urls (fa html)) s = (Inl e, s', evs)"
    using assms Inr by (simp add: scrape_game_data_def)
  have "standings_dir s' = standings_dir s" using assms by (rule scrape_game_data_standings)
  then have rd': "read_file (standings_dir s') f = Inr html" using Inr by simp
  obtain e2 where "for_each (save_box_score net) (box_score_urls (fa html)) s' = (Inl e, s', e2)"
    using box_loop_err [OF l] by blast
  then show ?thesis using rd' by (simp add: scrape_game_data_def)
qed

lemma season_loop_mono:
  "for_each (scrape_season_data net fa) ss s = (r, s', evs) \<Longrightarrow> store_le s s'"
  by (rule for_each_le [where le = store_le and body = "scrape_season_data net fa"])
     (auto intro: store_le_refl store_le_trans scrape_season_data_mono)

lemma season_loop_ok:
  "for_each (scrape_season_data net fa) ss s = (Inr (), s', evs) \<Longrightarrow> store_le s' t \<Longrightarrow>
   \<exists>evs'. for_each (scrape_season_data net fa) ss t = (Inr (), t, evs')"
  apply (rule for_each_ok [where le = store_le and body = "scrape_season_data net fa" and s = s])
       apply (rule store_le_refl)
      apply (erule store_le_trans, assumption)
     apply (erule scrape_season_data_mono)
    apply (erule scrape_season_data_ok, assumption)
   apply assumption+
  done

lemma season_loop_err:
  "for_each (scrape_season_data net fa) ss s = (Inl e, s', evs) \<Longrightarrow>
   \<exists>evs'. for_each (scrape_season_data net fa) ss s' = (Inl e, s', evs')"
  apply (rule for_each_err [where le = store_le and body = "scrape_season_data net fa" and s = s])
       apply (rule store_le_refl)
      apply (erule store_le_trans, assumption)
     apply (erule scrape_season_data_mono)
    apply (erule scrape_season_data_ok, assumption)
   apply (erule scrape_season_data_err)
  apply assumption
  done

lemma game_loop_mono:
  "for_each (scrape_game_data net fa) fs s = (r, s', evs) \<Longrightarrow> store_le s s'"
  by (rule for_each_le [where le = store_le and body = "scrape_game_data net fa"])
     (auto intro: store_le_refl store_le_trans scrape_game_data_mono)

lemma game_loop_rerun:
  "for_each (scrape_game_data net fa) fs s = (r, s', evs) \<Longrightarrow>
   \<exists>evs'. for_each (scrape_game_data net fa) fs s' = (r, s', evs')"
  apply (rule for_each_rerun [where le = store_le and body = "scrape_game_data net fa" and s = s])
       apply (rule store_le_refl)
      apply (erule store_le_trans, assumption)
     apply (erule scrape_game_data_mono)
    apply (erule scrape_game_data_ok, assumption)
   apply (erule scrape_game_data_err)
  apply assumption
  done

lemma getdata_main_mono:
  "getdata_main net fa s = (r, s', evs) \<Longrightarrow> store_le s s'"
  by (auto simp: getdata_main_def split: prod.splits sum.splits
      dest!: season_loop_mono game_loop_mono intro: store_le_trans)

lemma getdata_main_rerun:
  assumes "getdata_main net fa s = (r, s', evs)"
  shows "\<exists>evs'. getdata_main net fa s' = (r, s', evs')"
proof -
  obtain r1 s1 e1 where a: "for_each (scrape_season_data net fa) SEASONS s = (r1, s1, e1)"
    by (cases "for_each (scrape_season_data net fa) SEASONS s") auto
  show ?thesis
  proof (cases r1)
    case (Inl e)
    then have eq: "r = Inl e" "s' = s1" using assms a by (auto simp: getdata_main_def)
    obtain e2 where "for_each (scrape_season_data net fa) SEASONS s1 = (Inl e, s1, e2)"
      using season_loop_err a Inl by blast
    then show ?thesis using eq by (simp add: getdata_main_def)
  next
    case (Inr u)
    obtain e2 where
      b: "for_each (scrape_game_data net fa) (files_by_season (listdir (standings_dir s1))) s1
            = (r, s', e2)"
      using assms a Inr by (auto simp: getdata_main_def split: prod.splits)
    have le: "store_le s1 s'" using b by (rule game_loop_mono)
    have sd: "standings_dir s' = standings_dir s1" using b by (rule game_loop_standings)
    have "for_each (scrape_season_data net fa) SEASONS s = (Inr (), s1, e1)"
      using a Inr by simp
    then obtain e3 where a': "for_each (scrape_season_data net fa) SEASONS s' = (Inr (), s', e3)"
      using season_loop_ok le by blast
    obtain e4 where
      b': "for_each (scrape_game_data net fa) (files_by_season (listdir (standings_dir s1))) s'
            = (r, s', e4)"
      using game_loop_rerun [OF b] by blast
    show ?thesis using a' b' sd by (simp add: getdata_main_def)
  qed
qed

lemma gotos_append: "gotos (a @ b) = gotos a @ gotos b"
  by (induction a rule: gotos.induct) simp_all

lemma gotos_fetch_html_content:
  "\<exists>n \<le> retries. gotos (snd (fetch_html_content net url selector sleep retries)) =
     map (\<lambda>i. (url, selector, i)) [1 ..< n + 1]"
  using fetch_html_content_events [of retries net url selector sleep]
    gotos_attempt_events [of url selector sleep]
  by metis

lemma gotos_fetch_default:
  "(u, sel, a) \<in> set (gotos (snd (fetch_default net url selector))) \<Longrightarrow> u = url \<and> sel = selector"
  using gotos_fetch_html_content [of 12 net url selector 9]
  by (auto simp: fetch_default_def)

lemma fetches_absent_Nil: "fetches_absent st []"
  by (simp add: fetches_absent_def)

lemma fetches_absent_append:
  "fetches_absent st a \<Longrightarrow> fetches_absent st b \<Longrightarrow> fetches_absent st (a @ b)"
  by (auto simp: fetches_absent_def gotos_append)

lemma fetches_absent_anti:
  "store_le st st' \<Longrightarrow> fetches_absent st' evs \<Longrightarrow> fetches_absent st evs"
  unfolding fetches_absent_def store_le_def using path_exists_mono by blast

lemma for_each_events:
  assumes refl: "\<And>s. le s s"
      and trans: "\<And>a b c. le a b \<Longrightarrow> le b c \<Longrightarrow> le a c"
      and mono: "\<And>x s r s' evs. body x s = (r, s', evs) \<Longrightarrow> le s s'"
      and body: "\<And>x s r s' evs. body x s = (r, s', evs) \<Longrightarrow> Q s evs"
      and anti: "\<And>s s' evs. le s s' \<Longrightarrow> Q s' evs \<Longrightarrow> Q s evs"
      and app: "\<And>s a b. Q s a \<Longrightarrow> Q s b \<Longrightarrow> Q s (a @ b)"
      and nil: "\<And>s. Q s []"
  shows "for_each body xs s = (r, s', evs) \<Longrightarrow> Q s evs"
proof (induction xs arbitrary: s r s' evs)
  case Nil
  then show ?case using nil by simp
next
  case (Cons x xs)
  obtain r1 s1 e1 where b: "body x s = (r1, s1, e1)" by (cases "body x s") auto
  have q1: "Q s e1" using body [OF b] .
  show ?case
  proof (cases r1)
    case (Inl e)
    then show ?thesis using Cons.prems b q1 by simp
  next
    case (Inr u)
    obtain r2 s2 e2 where f: "for_each body xs s1 = (r2, s2, e2)"
      by (cases "for_each body xs s1") auto
    have "Q s1 e2" using Cons.IH [OF f] .
    then have "Q s e2" using anti mono [OF b] by blast
    moreover have "evs = e1 @ e2" using Cons.prems b Inr f by simp
    ultimately show ?thesis using q1 app by simp
  qed
qed

lemma gotos_fetch_default_pair:
  "fetch_default net url selector = (r, evs) \<Longrightarrow> (u, sel, a) \<in> set (gotos evs) \<Longrightarrow>
   u = url \<and> sel = selector"
  using gotos_fetch_default [of u sel a net url selector] by simp

lemma save_page_events:
  assumes "save_page net selector url d = (r, d', evs)" and "(u, sel, a) \<in> set (gotos evs)"
  shows "u = url \<and> sel = selector \<and> \<not> path_exists d (last_segment url)"
proof (cases "path_exists d (last_segment url)")
  case True
  then show ?thesis using assms by (simp add: save_page_def)
next
  case False
  obtain r0 where "fetch_default net url selector = (r0, evs)"
    using assms(1) False
    by (auto simp: save_page_def split: prod.splits sum.splits option.splits if_splits)
  then show ?thesis using gotos_fetch_default_pair assms(2) False by blast
qed

lemma save_schedule_page_absent:
  "save_schedule_page net u s = (r, s', evs) \<Longrightarrow> fetches_absent s evs"
  by (auto simp: save_schedule_page_def fetches_absent_def
      dest: save_page_events split: prod.splits)

lemma save_box_score_absent:
  "save_box_score net u s = (r, s', evs) \<Longrightarrow> fetches_absent s evs"
  by (auto simp: save_box_score_def fetches_absent_def
      dest: save_page_events split: prod.splits)

lemma schedule_loop_absent:
  "for_each (save_schedule_page net) urls s = (r, s', evs) \<Longrightarrow> fetches_absent s evs"
  apply (rule for_each_events [where le = store_le and body = "save_schedule_page net"
        and Q = fetches_absent and s = s])
        apply (rule store_le_refl)
       apply (erule store_le_trans, assumption)
      apply (erule save_schedule_page_mono)
     apply (erule save_schedule_page_absent)
    apply (erule fetches_absent_anti, assumption)
   apply (erule fetches_absent_append, assumption)
   apply (rule fetches_absent_Nil)
  apply assumption
  done

lemma box_loop_absent:
  "for_each (save_box_score net) urls s = (r, s', evs) \<Longrightarrow> fetches_absent s evs"
  apply (rule for_each_events [where le = store_le and body = "save_box_score net"
        and Q = fetches_absent and s = s])
        apply (rule store_le_refl)
       apply (erule store_le_trans, assumption)
      apply (erule save_box_score_mono)
     apply (erule save_box_score_absent)
    apply (erule fetches_absent_anti, assumption)
   apply (erule fetches_absent_append, assumption)
   apply (rule fetches_absent_Nil)
  apply assumption
  done

lemma index_fetch_absent:
  "fetch_default net url ''#content .filter'' = (r, evs) \<Longrightarrow> fetches_absent s evs"
  by (auto simp: fetches_absent_def dest: gotos_fetch_default_pair)

lemma scrape_season_data_absent:
  "scrape_season_data net fa season s = (r, s', evs) \<Longrightarrow> fetches_absent s evs"
  by (auto simp: scrape_season_data_def
      intro: index_fetch_absent fetches_absent_append schedule_loop_absent
      split: prod.splits sum.splits if_splits)

lemma scrape_game_data_absent:
  "scrape_game_data net fa f s = (r, s', evs) \<Longrightarrow> fetches_absent s evs"
  by (auto simp: scrape_game_data_def fetches_absent_Nil
      intro: box_loop_absent split: sum.splits)

lemma season_loop_absent:
  "for_each (scrape_season_data net fa) ss s = (r, s', evs) \<Longrightarrow> fetches_absent s evs"
  apply (rule for_each_events [where le = store_le and body = "scrape_season_data net fa"
        and Q = fetches_absent and s = s])
        apply (rule store_le_refl)
       apply (erule store_le_trans, assumption)
      apply (erule scrape_season_data_mono)
     apply (erule scrape_season_data_absent)
    apply (erule fetches_absent_anti, assumption)
   apply (erule fetches_absent_append, assumption)
   apply (rule fetches_absent_Nil)
  apply assumption
  done

lemma game_loop_absent:
  "for_each (scrape_game_data net fa) fs s = (r, s', evs) \<Longrightarrow> fetches_absent s evs"
  apply (rule for_each_events [where le = store_le and body = "scrape_game_data net fa"
        and Q = fetches_absent and s = s])
        apply (rule store_le_refl)
       apply (erule store_le_trans, assumption)
      apply (erule scrape_game_data_mono)
     apply (erule scrape_game_data_absent)
    apply (erule fetches_absent_anti, assumption)
   apply (erule fetches_absent_append, assumption)
   apply (rule fetches_absent_Nil)
  apply assumption
  done

lemma getdata_main_absent:
  assumes "getdata_main net fa s = (r, s', evs)"
  shows "fetches_absent s evs"
proof -
  obtain r1 s1 e1 where a: "for_each (scrape_season_data net fa) SEASONS s = (r1, s1, e1)"
    by (cases "for_each (scrape_season_data net fa) SEASONS s") auto
  have q1: "fetches_absent s e1" using a by (rule season_loop_absent)
  show ?thesis
  proof (cases r1)
    case (Inl e)
    then show ?thesis using assms a q1 by (auto simp: getdata_main_def)
  next
    case (Inr u)
    obtain e2 where
      b: "for_each (scrape_game_data net fa) (files_by_season (listdir (standings_dir s1))) s1
            = (r, s', e2)" and evs: "evs = e1 @ e2"
      using assms a Inr by (auto simp: getdata_main_def split: prod.splits)
    have "fetches_absent s1 e2" using b by (rule game_loop_absent)
    then have "fetches_absent s e2"
      using fetches_absent_anti season_loop_mono [OF a] by blast
    then show ?thesis using q1 evs fetches_absent_append by simp
  qed
qed

lemma has_failure_simps [simp]:
  "has_failure net [] = False"
  "has_failure net (Sleep d # evs) = has_failure net evs"
  "has_failure net (Goto u s a # evs) = (net u s a = Failure \<or> has_failure net evs)"
  by (auto simp: has_failure_def)

lemma has_failure_append: "has_failure net (a @ b) = (has_failure net a \<or> has_failure net b)"
  by (auto simp: has_failure_def gotos_append)

lemma no_event_after_failure_append:
  "\<not> has_failure net a \<Longrightarrow>
   no_event_after_failure net (a @ b) = no_event_after_failure net b"
  by (induction a rule: gotos.induct) auto

lemma aborted_Nil: "aborted net r []"
  by (simp add: aborted_def)

lemma aborted_seq:
  assumes "aborted net (Inr x) a" and "aborted net r b"
  shows "aborted net r (a @ b)"
proof -
  have "\<not> has_failure net a" using assms(1) by (auto simp: aborted_def)
  then show ?thesis using assms(2)
    by (simp add: aborted_def has_failure_append no_event_after_failure_append)
qed

lemma attempt_loop_aborted:
  "aborted net (fst (attempt_loop net url selector sleep as))
     (snd (attempt_loop net url selector sleep as))"
  by (induction as) (auto simp: aborted_def split: outcome.splits)

lemma fetch_default_aborted:
  assumes "fetch_default net url selector = (r, evs)"
  shows "aborted net r evs"
proof -
  have "attempt_loop net url selector 9 [1 ..< 12 + 1] = (r, evs)"
    using assms unfolding fetch_default_def fetch_html_content_def .
  then show ?thesis
    using attempt_loop_aborted [of net url selector 9 "[1 ..< 12 + 1]"] by (simp only: fst_conv snd_conv)
qed

lemma aborted_unit: "aborted net (Inr x) evs \<Longrightarrow> aborted net (Inr y) evs"
  by (simp add: aborted_def)

lemma for_each_aborted:
  assumes body: "\<And>x s r s' evs. body x s = (r, s', evs) \<Longrightarrow> aborted net r evs"
  shows "for_each body xs s = (r, s', evs) \<Longrightarrow> aborted net r evs"
proof (induction xs arbitrary: s r s' evs)
  case Nil
  then show ?case by (simp add: aborted_Nil)
next
  case (Cons x xs)
  obtain r1 s1 e1 where b: "body x s = (r1, s1, e1)" by (cases "body x s") auto
  have q1: "aborted net r1 e1" using body [OF b] .
  show ?case
  proof (cases r1)
    case (Inl e)
    then show ?thesis using Cons.prems b q1 by simp
  next
    case (Inr u)
    obtain r2 s2 e2 where f: "for_each body xs s1 = (r2, s2, e2)"
      by (cases "for_each body xs s1") auto
    have a2: "aborted net r2 e2" using Cons.IH [OF f] .
    have eq: "evs = e1 @ e2" "r = r2" using Cons.prems b Inr f by simp_all
    have "aborted net (Inr u) e1" using q1 Inr by simp
    then have "aborted net r2 (e1 @ e2)" using a2 by (rule aborted_seq)
    then show ?thesis using eq by simp
  qed
qed

lemma save_page_aborted:
  assumes "save_page net selector url d = (r, d', evs)"
  shows "aborted net r evs"
proof (cases "path_exists d (last_segment url)")
  case True
  then show ?thesis using assms by (auto simp: save_page_def aborted_Nil)
next
  case False
  obtain r0 e0 where f: "fetch_default net url selector = (r0, e0)"
    by (cases "fetch_default net url selector") auto
  have a0: "aborted net r0 e0" using f by (rule fetch_default_aborted)
  show ?thesis
  proof (cases r0)
    case (Inl e)
    then have "evs = e0" "r = Inl e" using assms False f by (auto simp: save_page_def)
    then show ?thesis using a0 Inl by (auto simp: aborted_def)
  next
    case (Inr html)
    then have "evs = e0" "r = Inr ()" using assms False f
      by (auto simp: save_page_def split: option.splits if_splits)
    then show ?thesis using a0 Inr by (auto elim: aborted_unit)
  qed
qed

lemma save_schedule_page_aborted:
  "save_schedule_page net u s = (r, s', evs) \<Longrightarrow> aborted net r evs"
  by (auto simp: save_schedule_page_def dest: save_page_aborted split: prod.splits)

lemma save_box_score_aborted:
  "save_box_score net u s = (r, s', evs) \<Longrightarrow> aborted net r evs"
  by (auto simp: save_box_score_def dest: save_page_aborted split: prod.splits)

lemma aborted_no_failure:
  "aborted net (Inr x) evs \<Longrightarrow> aborted net r evs"
  by (auto simp: aborted_def)

lemma schedule_loop_aborted:
  "for_each (save_schedule_page net) urls s = (r, s', evs) \<Longrightarrow> aborted net r evs"
  apply (rule for_each_aborted [where body = "save_schedule_page net" and s = s])
   apply (erule save_schedule_page_aborted)
  apply assumption
  done

lemma box_loop_aborted:
  "for_each (save_box_score net) urls s = (r, s', evs) \<Longrightarrow> aborted net r evs"
  apply (rule for_each_aborted [where body = "save_box_score net" and s = s])
   apply (erule save_box_score_aborted)
  apply assumption
  done

lemma scrape_season_data_aborted:
  assumes "scrape_season_data net fa season s = (r, s', evs)"
  shows "aborted net r evs"
proof -
  obtain r0 e0 where f: "fetch_default net (season_url season) ''#content .filter'' = (r0, e0)"
    by (cases "fetch_default net (season_url season) ''#content .filter''") auto
  have a0: "aborted net r0 e0" using f by (rule fetch_default_aborted)
  show ?thesis
  proof (cases r0)
    case (Inl e)
    then have "evs = e0" "r = Inl e" using assms f by (auto simp: scrape_season_data_def)
    then show ?thesis using a0 Inl by (auto simp: aborted_def)
  next
    case (Inr html)
    then have a0': "aborted net (Inr html) e0" using a0 by simp
    show ?thesis
    proof (cases "truthy html")
      case False
      then have "evs = e0" using assms f Inr by (auto simp: scrape_season_data_def)
      then show ?thesis using a0' by (auto elim: aborted_no_failure)
    next
      case True
      show ?thesis
      proof (cases "standings_pages (fa (the html))")
        case (Inl e)
        then have "evs = e0" using assms f \<open>r0 = Inr html\<close> True
          by (auto simp: scrape_season_data_def)
        then show ?thesis using a0' by (auto elim: aborted_no_failure)
      next
        case (Inr urls)
        obtain e1 where l: "for_each (save_schedule_page net) urls s = (r, s', e1)"
          and evs: "evs = e0 @ e1"
          using assms f \<open>r0 = Inr html\<close> True Inr
          by (auto simp: scrape_season_data_def split: prod.splits)
        have "aborted net r e1" using l by (rule schedule_loop_aborted)
        then have "aborted net r (e0 @ e1)" using a0' by (rule aborted_seq [rotated])
        then show ?thesis using evs by simp
      qed
    qed
  qed
qed

lemma scrape_game_data_aborted:
  assumes "scrape_game_data net fa f s = (r, s', evs)"
  shows "aborted net r evs"
proof (cases "read_file (standings_dir s) f")
  case (Inl e)
  then have "evs = []" using assms by (auto simp: scrape_game_data_def)
  then show ?thesis by (simp add: aborted_Nil)
next
  case (Inr html)
  then have "for_each (save_box_score net) (box_score_urls (fa html)) s = (r, s', evs)"
    using assms by (simp add: scrape_game_data_def)
  then show ?thesis by (rule box_loop_aborted)
qed

lemma season_loop_aborted:
  "for_each (scrape_season_data net fa) ss s = (r, s', evs) \<Longrightarrow> aborted net r evs"
  apply (rule for_each_aborted [where body = "scrape_season_data net fa" and s = s])
   apply (erule scrape_season_data_aborted)
  apply assumption
  done

lemma game_loop_aborted:
  "for_each (scrape_game_data net fa) fs s = (r, s', evs) \<Longrightarrow> aborted net r evs"
  apply (rule for_each_aborted [where body = "scrape_game_data net fa" and s = s])
   apply (erule scrape_game_data_aborted)
  apply assumption
  done

lemma getdata_main_aborted:
  assumes "getdata_main net fa s = (r, s', evs)"
  shows "aborted net r evs"
proof -
  obtain r1 s1 e1 where a: "for_each (scrape_season_data net fa) SEASONS s = (r1, s1, e1)"
    by (cases "for_each (scrape_season_data net fa) SEASONS s") auto
  have q1: "aborted net r1 e1" using a by (rule season_loop_aborted)
  show ?thesis
  proof (cases r1)
    case (Inl e)
    then have "evs = e1" "r = r1" using assms a by (auto simp: getdata_main_def)
    then show ?thesis using q1 by simp
  next
    case (Inr u)
    obtain e2 where
      b: "for_each (scrape_game_data net fa) (files_by_season (listdir (standings_dir s1))) s1
            = (r, s', e2)" and evs: "evs = e1 @ e2"
      using assms a Inr by (auto simp: getdata_main_def split: prod.splits)
    have a2: "aborted net r e2" using b by (rule game_loop_aborted)
    have "aborted net (Inr u) e1" using q1 Inr by simp
    then have "aborted net r (e1 @ e2)" using a2 by (rule aborted_seq)
    then show ?thesis using evs by simp
  qed
qed

lemma fetched_Nil: "fetched selector [] = []"
  by (simp add: fetched_def)

lemma fetched_append: "fetched selector (a @ b) = fetched selector a @ fetched selector b"
  by (simp add: fetched_def gotos_append)

lemma attempt_loop_events_pos:
  "\<exists>n \<le> length as. (as \<noteq> [] \<longrightarrow> 0 < n) \<and>
      snd (attempt_loop net url selector sleep as) =
      attempt_events url selector sleep (take n as)"
proof (cases as)
  case Nil
  then show ?thesis by (simp add: attempt_events_def)
next
  case (Cons a as')
  obtain n where n: "n \<le> length as'"
    "snd (attempt_loop net url selector sleep as') = attempt_events url selector sleep (take n as')"
    using attempt_loop_events by blast
  show ?thesis
  proof (cases "net url selector a")
    case Timeout
    then have "snd (attempt_loop net url selector sleep (a # as')) =
        attempt_events url selector sleep (take (Suc n) (a # as'))"
      using n(2) by (simp add: attempt_events_def)
    moreover have "Suc n \<le> length (a # as')" using n(1) by simp
    ultimately show ?thesis using Cons by blast
  next
    case Failure
    then have "snd (attempt_loop net url selector sleep (a # as')) =
        attempt_events url selector sleep (take (Suc 0) (a # as'))"
      by (simp add: attempt_events_def)
    moreover have "Suc 0 \<le> length (a # as')" by simp
    ultimately show ?thesis using Cons by blast
  next
    case (Rendered html)
    then have "snd (attempt_loop net url selector sleep (a # as')) =
        attempt_events url selector sleep (take (Suc 0) (a # as'))"
      by (simp add: attempt_events_def)
    moreover have "Suc 0 \<le> length (a # as')" by simp
    ultimately show ?thesis using Cons by blast
  qed
qed

lemma filter_first_attempt:
  "0 < n \<Longrightarrow> filter (\<lambda>(u, s, a). s = sel' \<and> a = 1) (map (\<lambda>i. (url, sel, i)) [1 ..< n + 1])
     = (if sel' = sel then [(url, sel, 1)] else [])"
proof -
  assume "0 < n"
  then have u: "[1 ..< n + 1] = 1 # [2 ..< n + 1]"
    by (metis One_nat_def Suc_1 add.commute less_add_same_cancel2 plus_1_eq_Suc upt_conv_Cons)
  have "filter (\<lambda>(u, s, a). s = sel' \<and> a = 1) (map (\<lambda>i. (url, sel, i)) [2 ..< n + 1]) = []"
    by (auto simp: filter_empty_conv)
  then show ?thesis unfolding u by simp
qed

lemma fetched_fetch_default:
  "fetched sel' (snd (fetch_default net url sel)) = (if sel' = sel then [url] else [])"
proof -
  obtain n where n: "n \<le> length [1 ..< 12 + 1]" "([1 ..< 12 + (1::nat)] \<noteq> [] \<longrightarrow> 0 < n)"
    "snd (attempt_loop net url sel 9 [1 ..< 12 + 1]) = attempt_events url sel 9 (take n [1 ..< 12 + 1])"
    using attempt_loop_events_pos [of "[1 ..< 12 + 1]" net url sel 9] by blast
  have le: "n \<le> 12" using n(1) by simp
  have pos: "0 < n" using n(2) by simp
  have "gotos (snd (fetch_default net url sel)) = map (\<lambda>i. (url, sel, i)) [1 ..< n + 1]"
    unfolding fetch_default_def fetch_html_content_def n(3) take_upt_from_one [OF le]
    by (rule gotos_attempt_events)
  then show ?thesis using filter_first_attempt [OF pos, of sel' url sel]
    by (simp add: fetched_def)
qed

lemma save_page_fetched:
  assumes "save_page net sel url d = (r, d', evs)"
  shows "fetched sel evs = (if path_exists d (last_segment url) then [] else [url])"
proof (cases "path_exists d (last_segment url)")
  case True
  then show ?thesis using assms by (auto simp: save_page_def fetched_Nil)
next
  case False
  then have "evs = snd (fetch_default net url sel)"
    using assms by (auto simp: save_page_def split: prod.splits sum.splits option.splits if_splits)
  then show ?thesis using False fetched_fetch_default [of sel net url sel] by simp
qed

lemma save_page_other:
  assumes "save_page net sel url d = (r, d', evs)" and "n \<noteq> last_segment url"
  shows "path_exists d' n = path_exists d n"
  using assms
  by (auto simp: save_page_def path_exists_def listdir_write_file
      split: prod.splits sum.splits option.splits if_splits)

lemma schedule_loop_fetched:
  assumes "for_each (save_schedule_page net) urls s = (Inr (), s', evs)"
      and "distinct (map last_segment urls)"
  shows "fetched ''#all_schedule'' evs =
         filter (\<lambda>u. \<not> path_exists (standings_dir s) (last_segment u)) urls"
  using assms
proof (induction urls arbitrary: s evs)
  case Nil
  then show ?case by (simp add: fetched_Nil)
next
  case (Cons x xs)
  obtain r1 s1 e1 where b: "save_schedule_page net x s = (r1, s1, e1)"
    by (cases "save_schedule_page net x s") auto
  obtain r2 s2 e2 where f: "for_each (save_schedule_page net) xs s1 = (r2, s2, e2)"
    by (cases "for_each (save_schedule_page net) xs s1") auto
  have r1: "r1 = Inr ()" using Cons.prems(1) b by (cases r1) auto
  have eq: "r2 = Inr ()" "s2 = s'" "evs = e1 @ e2" using Cons.prems(1) b f r1 by auto
  obtain d1 where p: "save_page net ''#all_schedule'' x (standings_dir s) = (r1, d1, e1)"
    and s1: "standings_dir s1 = d1"
    using b by (auto simp: save_schedule_page_def split: prod.splits)
  have h1: "fetched ''#all_schedule'' e1 =
      (if path_exists (standings_dir s) (last_segment x) then [] else [x])"
    using p by (rule save_page_fetched)
  have "fetched ''#all_schedule'' e2 =
      filter (\<lambda>u. \<not> path_exists (standings_dir s1) (last_segment u)) xs"
    using Cons.IH [of s1 e2] f eq Cons.prems(2) by simp
  also have "\<dots> = filter (\<lambda>u. \<not> path_exists (standings_dir s) (last_segment u)) xs"
  proof (rule filter_cong [OF refl])
    fix u assume "u \<in> set xs"
    then have "last_segment u \<in> last_segment ` set xs" by (rule imageI)
    moreover have "last_segment x \<notin> last_segment ` set xs" using Cons.prems(2) by simp
    ultimately have "last_segment u \<noteq> last_segment x" by metis
    then show "(\<not> path_exists (standings_dir s1) (last_segment u)) =
               (\<not> path_exists (standings_dir s) (last_segment u))"
      using save_page_other [OF p] s1 by simp
  qed
  finally show ?case using h1 eq(3) by (simp add: fetched_append)
qed

lemma scrape_season_data_fetched:
  assumes "fetch_default net (season_url season) ''#content .filter'' = (Inr (Some html), e0)"
      and "html \<noteq> []"
      and "standings_pages (fa html) = Inr urls"
      and "distinct (map last_segment urls)"
      and "scrape_season_data net fa season s = (Inr (), s', evs)"
  shows "fetched ''#all_schedule'' evs =
         filter (\<lambda>u. \<not> path_exists (standings_dir s) (last_segment u)) urls"
proof -
  obtain e1 where l: "for_each (save_schedule_page net) urls s = (Inr (), s', e1)"
    and evs: "evs = e0 @ e1"
    using assms(1,2,3,5) by (auto simp: scrape_season_data_def split: prod.splits)
  have "fetched ''#all_schedule'' e0 = []"
    using fetched_fetch_default [of "''#all_schedule''" net "season_url season" "''#content .filter''"]
      assms(1) by simp
  then show ?thesis using schedule_loop_fetched [OF l assms(4)] evs by (simp add: fetched_append)
qed

lemma same_result_refl: "same_result p p"
  by (simp add: same_result_def)

lemma attempt_loop_cong:
  "(\<forall>a \<in> set as. net u s a = net' u s a) \<Longrightarrow>
   attempt_loop net u s d as = attempt_loop net' u s d as"
  by (induction as) (auto split: outcome.splits)

lemma fetch_default_elsewhere:
  "\<not> (u = url \<and> s = selector) \<Longrightarrow>
   fetch_default (with_timeouts net url selector) u s = fetch_default net u s"
  unfolding fetch_default_def fetch_html_content_def
  by (rule attempt_loop_cong) (auto simp: with_timeouts_def)

lemma fetch_default_with_timeouts:
  "fst (fetch_default (with_timeouts net url selector) url selector) = Inr None"
  unfolding fetch_default_def fetch_html_content_def
  by (simp add: attempt_loop_all_timeout with_timeouts_def)

lemma for_each_same:
  assumes "\<And>x s. same_result (body x s) (body' x s)"
  shows "same_result (for_each body xs s) (for_each body' xs s)"
proof (induction xs arbitrary: s)
  case Nil
  show ?case by (simp add: same_result_def)
next
  case (Cons x xs)
  obtain r1 s1 e1 where b: "body x s = (r1, s1, e1)" by (cases "body x s") auto
  obtain e1' where b': "body' x s = (r1, s1, e1')"
    using assms [of x s] b by (cases "body' x s") (auto simp: same_result_def)
  show ?case
  proof (cases r1)
    case (Inl e)
    then show ?thesis using b b' by (simp add: same_result_def)
  next
    case (Inr u)
    then show ?thesis using b b' Cons.IH [of s1]
      by (auto simp: same_result_def split: prod.splits)
  qed
qed

lemma save_page_same:
  assumes "fst (fetch_default net url selector) = Inr (Some [])"
  shows "same_result (save_page net s u d) (save_page (with_timeouts net url selector) s u d)"
proof (cases "u = url \<and> s = selector")
  case False
  then show ?thesis
    by (simp add: save_page_def fetch_default_elsewhere same_result_def)
next
  case True
  obtain e0 where f: "fetch_default net url selector = (Inr (Some []), e0)"
    using assms by (cases "fetch_default net url selector") auto
  obtain e1 where f': "fetch_default (with_timeouts net url selector) url selector = (Inr None, e1)"
    using fetch_default_with_timeouts [of net url selector]
    by (cases "fetch_default (with_timeouts net url selector) url selector") auto
  show ?thesis using True f f' by (simp add: save_page_def same_result_def)
qed

lemma save_schedule_page_same:
  assumes "fst (fetch_default net url selector) = Inr (Some [])"
  shows "same_result (save_schedule_page net u st)
           (save_schedule_page (with_timeouts net url selector) u st)"
  using save_page_same [OF assms, of "''#all_schedule''" u "standings_dir st"]
  by (auto simp: save_schedule_page_def same_result_def split: prod.splits)

lemma save_box_score_same:
  assumes "fst (fetch_default net url selector) = Inr (Some [])"
  shows "same_result (save_box_score net u st)
           (save_box_score (with_timeouts net url selector) u st)"
  using save_page_same [OF assms, of "''#content''" u "scores_dir st"]
  by (auto simp: save_box_score_def same_result_def split: prod.splits)

lemma same_result_append:
  "same_result p q \<Longrightarrow>
   same_result (case p of (r, st, evs) \<Rightarrow> (r, st, a @ evs)) (case q of (r, st, evs) \<Rightarrow> (r, st, b @ evs))"
  by (auto simp: same_result_def split: prod.splits)

lemma scrape_season_data_same:
  assumes "fst (fetch_default net url selector) = Inr (Some [])"
  shows "same_result (scrape_season_data net fa season st)
           (scrape_season_data (with_timeouts net url selector) fa season st)"
proof (cases "season_url season = url \<and> ''#content .filter'' = selector")
  case True
  obtain e0 where f: "fetch_default net url selector = (Inr (Some []), e0)"
    using assms by (cases "fetch_default net url selector") auto
  obtain e1 where f': "fetch_default (with_timeouts net url selector) url selector = (Inr None, e1)"
    using fetch_default_with_timeouts [of net url selector]
    by (cases "fetch_default (with_timeouts net url selector) url selector") auto
  show ?thesis using True f f' by (auto simp: scrape_season_data_def same_result_def)
next
  case False
  then have eq: "fetch_default (with_timeouts net url selector) (season_url season) ''#content .filter''
      = fetch_default net (season_url season) ''#content .filter''"
    by (intro fetch_default_elsewhere) auto
  obtain r0 e0 where f: "fetch_default net (season_url season) ''#content .filter'' = (r0, e0)"
    by (cases "fetch_default net (season_url season) ''#content .filter''") auto
  show ?thesis
  proof (cases r0)
    case (Inl e)
    then show ?thesis using f eq by (simp add: scrape_season_data_def same_result_def)
  next
    case (Inr html)
    show ?thesis
    proof (cases "truthy html")
      case False
      then show ?thesis using f eq Inr by (simp add: scrape_season_data_def same_result_def)
    next
      case True
      show ?thesis
      proof (cases "standings_pages (fa (the html))")
        case (Inl e)
        then show ?thesis using f eq \<open>r0 = Inr html\<close> True
          by (simp add: scrape_season_data_def same_result_def)
      next
        case (Inr urls)
        have "same_result (for_each (save_schedule_page net) urls st)
            (for_each (save_schedule_page (with_timeouts net url selector)) urls st)"
          by (rule for_each_same) (rule save_schedule_page_same [OF assms])
        then show ?thesis using f eq \<open>r0 = Inr html\<close> True Inr
          by (auto simp: scrape_season_data_def same_result_def split: prod.splits)
      qed
    qed
  qed
qed

lemma scrape_game_data_same:
  assumes "fst (fetch_default net url selector) = Inr (Some [])"
  shows "same_result (scrape_game_data net fa f st)
           (scrape_game_data (with_timeouts net url selector) fa f st)"
proof (cases "read_file (standings_dir st) f")
  case (Inl e)
  then show ?thesis by (simp add: scrape_game_data_def same_result_def)
next
  case (Inr html)
  have "same_result (for_each (save_box_score net) (box_score_urls (fa html)) st)
      (for_each (save_box_score (with_timeouts net url selector)) (box_score_urls (fa html)) st)"
    by (rule for_each_same) (rule save_box_score_same [OF assms])
  then show ?thesis using Inr by (simp add: scrape_game_data_def)
qed

lemma getdata_main_same:
  assumes "fst (fetch_default net url selector) = Inr (Some [])"
  shows "same_result (getdata_main net fa st) (getdata_main (with_timeouts net url selector) fa st)"
proof -
  let ?net' = "with_timeouts net url selector"
  have a: "same_result (for_each (scrape_season_data net fa) SEASONS st)
             (for_each (scrape_season_data ?net' fa) SEASONS st)"
    by (rule for_each_same) (rule scrape_season_data_same [OF assms])
  obtain r1 s1 e1 where p: "for_each (scrape_season_data net fa) SEASONS st = (r1, s1, e1)"
    by (cases "for_each (scrape_season_data net fa) SEASONS st") auto
  obtain e1' where p': "for_each (scrape_season_data ?net' fa) SEASONS st = (r1, s1, e1')"
    using a p by (cases "for_each (scrape_season_data ?net' fa) SEASONS st")
      (auto simp: same_result_def)
  show ?thesis
  proof (cases r1)
    case (Inl e)
    then show ?thesis using p p' by (simp add: getdata_main_def same_result_def)
  next
    case (Inr u)
    have "same_result
        (for_each (scrape_game_data net fa) (files_by_season (listdir (standings_dir s1))) s1)
        (for_each (scrape_game_data ?net' fa) (files_by_season (listdir (standings_dir s1))) s1)"
      by (rule for_each_same) (rule scrape_game_data_same [OF assms])
    then show ?thesis using p p' Inr
      by (auto simp: getdata_main_def same_result_def split: prod.splits)
  qed
qed

lemma SEASONS_eq: "SEASONS = [2016, 2017, 2018, 2019, 2020, 2021, 2022, 2023, 2024]"
  by code_simp

lemma fetch_default_unfold:
  "fetch_default net url selector =
     (case net url selector 1 of
        Timeout \<Rightarrow> apsnd (\<lambda>evs. Sleep 9 # Goto url selector 1 # evs)
                     (attempt_loop net url selector 9 [2 ..< 13])
      | Failure \<Rightarrow> (Inl NavigationError, [Sleep 9, Goto url selector 1])
      | Rendered html \<Rightarrow> (Inr (Some html), [Sleep 9, Goto url selector 1]))"
proof -
  have "[1 ..< 12 + 1] = 1 # [2 ..< 13::nat]" by (simp add: upt_conv_Cons)
  then have "fetch_default net url selector = attempt_loop net url selector 9 (1 # [2 ..< 13])"
    by (simp only: fetch_default_def fetch_html_content_def)
  then show ?thesis by (simp split: outcome.splits)
qed

lemma attempt_loop_failure:
  "(\<forall>i \<in> set pre. net url selector i = Timeout) \<Longrightarrow> net url selector j = Failure \<Longrightarrow>
   attempt_loop net url selector sleep (pre @ j # post) =
     (Inl NavigationError, attempt_events url selector sleep (pre @ [j]))"
  by (induction pre) (simp_all add: attempt_events_def)

lemma fetch_html_content_failure:
  assumes "1 \<le> j" and "j \<le> retries" and "net url selector j = Failure"
      and "\<forall>i \<in> {1 ..< j}. net url selector i = Timeout"
  shows "fetch_html_content net url selector sleep retries =
     (Inl NavigationError, attempt_events url selector sleep [1 ..< j + 1])"
proof -
  obtain k where k: "retries + 1 = j + k" using assms(2) by (metis le_add_diff_inverse le_SucI Suc_eq_plus1)
  have "[1 ..< j + k] = [1 ..< j] @ [j ..< j + k]" using assms(1) by (rule upt_add_eq_append)
  then have "[1 ..< retries + 1] = [1 ..< j] @ [j ..< retries + 1]" using k by simp
  also have "[j ..< retries + 1] = j # [j + 1 ..< retries + 1]"
    using assms(2) by (simp add: upt_conv_Cons)
  finally have u: "[1 ..< retries + 1] = [1 ..< j] @ j # [j + 1 ..< retries + 1]" .
  have v: "[1 ..< j + 1] = [1 ..< j] @ [j]" using assms(1) by simp
  have "\<forall>i \<in> set [1 ..< j]. net url selector i = Timeout" using assms(4) by simp
  then show ?thesis
    unfolding fetch_html_content_def u v using assms(3) by (rule attempt_loop_failure)
qed

lemma failing_run:
  "getdata_main failing_net (\<lambda>html. []) empty_store =
     (Inl NavigationError, empty_store, [Sleep 9, Goto (season_url 2016) ''#content .filter'' 1])"
  by (simp add: getdata_main_def SEASONS_eq scrape_season_data_def fetch_default_unfold
      failing_net_def cong: prod.case_cong_weak)

lemmas example_defs = example_net_def example_anchors_def example_store_def example_store'_def
  example_events_def example_season_events_def october_def november_def december_def
  season_url_def site_def str_nat.simps digit_char_def last_segment_def

lemma example_season_run:
  "scrape_season_data example_net example_anchors 2016 example_store =
     (Inr (), example_store', example_season_events)"
  by (simp add: scrape_season_data_def fetch_default_unfold
      save_schedule_page_def save_page_def path_exists_def listdir_def example_defs
      cong: prod.case_cong_weak)

lemma example_run:
  "getdata_main example_net example_anchors example_store = (Inr (), example_store', example_events)"
  by (simp add: getdata_main_def SEASONS_eq scrape_season_data_def fetch_default_unfold
      save_schedule_page_def save_page_def path_exists_def listdir_def
      files_by_season_def scrape_game_data_def read_file_def example_defs
      cong: prod.case_cong_weak)

lemma example_index:
  "fetch_default example_net (season_url 2016) ''#content .filter'' =
     (Inr (Some ''index''), [Sleep 9, Goto (season_url 2016) ''#content .filter'' 1])"
  by (simp add: fetch_default_unfold example_net_def)

lemma example_pages:
  "standings_pages (example_anchors ''index'') = Inr [site @ october, site @ november, site @ december]"
  by (simp add: example_anchors_def)

lemma example_distinct:
  "distinct (map last_segment [site @ october, site @ november, site @ december])"
  by (simp add: example_defs)

lemma example_absent:
  "filter (\<lambda>u. \<not> path_exists (standings_dir example_store) (last_segment u))
     [site @ october, site @ november, site @ december] = [site @ december]"
  by (simp add: path_exists_def listdir_def example_defs)

lemma failing_first:
  "failing_net (season_url 2016) ''#content .filter'' 1 = Failure"
  by (simp add: failing_net_def)

lemma failing_none_before:
  "\<forall>i \<in> {1 ..< 1::nat}. failing_net (season_url 2016) ''#content .filter'' i = Timeout"
  by simp

lemma failing_has_failure:
  "has_failure failing_net [Sleep 9, Goto (season_url 2016) ''#content .filter'' 1]"
  by (simp add: failing_net_def)

lemma failing_next_season:
  "failing_net (season_url 2017) ''#content .filter'' 1 = Rendered ''x''"
  by (simp add: failing_net_def season_url_def site_def str_nat.simps digit_char_def)

lemma blank_fetch:
  "fetch_default blank_net url selector = (Inr (Some []), [Sleep 9, Goto url selector 1])"
  by (simp add: fetch_default_unfold blank_net_def)

section \<open>Properties of the extractor\<close>

lemma nanmax_None_right [simp]: "nanmax x None = x"
  by (cases x) simp_all

lemma is_max_of_Nil: "is_max_of None []"
  by (simp add: is_max_of_def)

lemma is_max_of_Cons: "is_max_of m vs \<Longrightarrow> is_max_of (nanmax v m) (v # vs)"
  by (cases v; cases m) (auto simp: is_max_of_def max_def)

lemma length_column_maxima:
  "\<forall>r \<in> set rs. length r = n \<Longrightarrow> length (column_maxima n rs) = n"
  by (induction rs) (simp_all add: column_maxima_def)

lemma column_maxima_nth:
  "\<forall>r \<in> set rs. length r = n \<Longrightarrow> j < n \<Longrightarrow>
   is_max_of (column_maxima n rs ! j) (map (\<lambda>r. r ! j) rs)"
proof (induction rs)
  case Nil
  then show ?case by (simp add: column_maxima_def is_max_of_Nil)
next
  case (Cons r rs)
  have len: "length (column_maxima n rs) = n" using Cons.prems(1) by (simp add: length_column_maxima)
  have ih: "is_max_of (column_maxima n rs ! j) (map (\<lambda>r. r ! j) rs)"
    using Cons by simp
  have "column_maxima n (r # rs) = map2 nanmax r (column_maxima n rs)"
    by (simp add: column_maxima_def)
  then have "column_maxima n (r # rs) ! j = nanmax (r ! j) (column_maxima n rs ! j)"
    using Cons.prems len by simp
  then show ?case using is_max_of_Cons [OF ih] by simp
qed

subsection \<open>Cells of a row\<close>

lemma map_of_zip_put_same:
  "c \<in> set cols \<Longrightarrow> length row = length cols \<Longrightarrow>
   map_of (zip cols (map2 (\<lambda>k x. if k = c then v else x) cols row)) c = Some v"
proof (induction cols arbitrary: row)
  case Nil
  then show ?case by simp
next
  case (Cons k cols)
  then obtain x xs where row: "row = x # xs" by (cases row) auto
  show ?case using Cons row by auto
qed

lemma map_of_zip_put_other:
  "c' \<noteq> c \<Longrightarrow>
   map_of (zip cols (map2 (\<lambda>k x. if k = c then v else x) cols row)) c' = map_of (zip cols row) c'"
proof (induction cols arbitrary: row)
  case Nil
  then show ?case by simp
next
  case (Cons k cols)
  show ?case
  proof (cases row)
    case Nil
    then show ?thesis by simp
  next
    case (Cons x xs)
    then show ?thesis using Cons.IH [of xs] Cons.prems by auto
  qed
qed

lemma cell_of_put_same:
  "c \<in> set cols \<Longrightarrow> length row = length cols \<Longrightarrow>
   cell_of cols (map2 (\<lambda>k x. if k = c then v else x) cols row) c = v"
  by (simp add: cell_of_def map_of_zip_put_same)

lemma cell_of_put_other:
  "c' \<noteq> c \<Longrightarrow>
   cell_of cols (map2 (\<lambda>k x. if k = c then v else x) cols row) c' = cell_of cols row c'"
  by (simp add: cell_of_def map_of_zip_put_other)

lemma map_of_zip_append:
  "length row = length cols \<Longrightarrow>
   map_of (zip (cols @ cols') (row @ row')) c =
     (case map_of (zip cols row) c of None \<Rightarrow> map_of (zip cols' row') c | Some v \<Rightarrow> Some v)"
  by (simp add: map_add_def)

lemma map_of_zip_None:
  "length row = length cols \<Longrightarrow> (map_of (zip cols row) c = None) = (c \<notin> set cols)"
  by (metis map_of_zip_is_None)

lemma cell_of_append_left:
  assumes l: "length row = length cols" and m: "c \<in> set cols"
  shows "cell_of (cols @ cols') (row @ row') c = cell_of cols row c"
proof -
  obtain v where v: "map_of (zip cols row) c = Some v"
    using l m by (metis map_of_zip_is_None not_None_eq)
  have "map_of (zip (cols @ cols') (row @ row')) c = Some v"
    by (simp only: map_of_zip_append [OF l] v option.case)
  then show ?thesis by (simp only: cell_of_def v)
qed

lemma cell_of_append_right:
  assumes l: "length row = length cols" and m: "c \<notin> set cols"
  shows "cell_of (cols @ cols') (row @ row') c = cell_of cols' row' c"
proof -
  have n: "map_of (zip cols row) c = None"
    using l m by (metis map_of_zip_is_None)
  have "map_of (zip (cols @ cols') (row @ row')) c = map_of (zip cols' row') c"
    by (simp only: map_of_zip_append [OF l] n option.case)
  then show ?thesis by (simp only: cell_of_def)
qed

lemma map_of_zip_map_inj:
  "inj f \<Longrightarrow> map_of (zip (map f cols) row) (f c) = map_of (zip cols row) c"
proof (induction cols arbitrary: row)
  case Nil
  then show ?case by simp
next
  case (Cons k cols)
  show ?case
  proof (cases row)
    case Nil
    then show ?thesis by simp
  next
    case (Cons x xs)
    then show ?thesis using Cons.IH [of xs] Cons.prems by (auto dest: injD)
  qed
qed

lemma inj_opp: "inj (\<lambda>c. c @ ''_opp'')"
  by (rule injI) simp

lemma cell_of_opp:
  "cell_of (map (\<lambda>c. c @ ''_opp'') cols) row (c @ ''_opp'') = cell_of cols row c"
  using map_of_zip_map_inj [OF inj_opp, of cols row c] by (simp add: cell_of_def)

lemma opp_not_plain:
  "c @ ''_opp'' \<noteq> ''season''" "c @ ''_opp'' \<noteq> ''date''" "c @ ''_opp'' \<noteq> ''won''"
  "c @ ''_opp'' \<noteq> ''total''" "c @ ''_opp'' \<noteq> ''home''" "c @ ''_opp'' \<noteq> ''team''"
proof -
  have l: "last (c @ ''_opp'') = CHR ''p''" by simp
  show "c @ ''_opp'' \<noteq> ''season''" using l by auto
  show "c @ ''_opp'' \<noteq> ''date''" using l by auto
  show "c @ ''_opp'' \<noteq> ''won''" using l by auto
  show "c @ ''_opp'' \<noteq> ''total''" using l by auto
  show "c @ ''_opp'' \<noteq> ''home''" using l by auto
  show "c @ ''_opp'' \<noteq> ''team''" using l by auto
qed

lemma cell_of_absent:
  assumes "c \<notin> set cols"
  shows "cell_of cols row c = NaN"
proof -
  have "map_of (zip cols row) c = None"
  proof (rule ccontr)
    assume "map_of (zip cols row) c \<noteq> None"
    then obtain v where "map_of (zip cols row) c = Some v" by auto
    then have "(c, v) \<in> set (zip cols row)" by (rule map_of_SomeD)
    then have "c \<in> set cols" by (rule set_zip_leftD)
    then show False using assms by simp
  qed
  then show ?thesis by (simp add: cell_of_def)
qed

lemma cell_of_single: "cell_of [c] [v] c = v"
  by (simp add: cell_of_def)

subsection \<open>Frames of two rows\<close>

lemma overwrite_two_rows:
  assumes "two_rows df"
  shows "two_rows (overwrite c [a, b] df)"
proof -
  obtain p q where r: "rows df = [p, q]" "length p = length (columns df)"
    "length q = length (columns df)" using assms by (auto simp: two_rows_def)
  show ?thesis using r by (auto simp: two_rows_def overwrite_def)
qed

lemma overwrite_columns_prefix:
  "j < length (columns df) \<Longrightarrow> columns (overwrite c vals df) ! j = columns df ! j"
  by (simp add: overwrite_def nth_append)

lemma overwrite_length_columns:
  "length (columns df) \<le> length (columns (overwrite c vals df))"
  by (simp add: overwrite_def)

lemma overwrite_nth:
  assumes "two_rows df" and "i < 2" and "j < length (columns df)"
  shows "rows (overwrite c [a0, a1] df) ! i ! j =
         (if columns df ! j = c then [a0, a1] ! i else rows df ! i ! j)"
proof -
  obtain p q where r: "rows df = [p, q]" "length p = length (columns df)"
    "length q = length (columns df)" using assms(1) by (auto simp: two_rows_def)
  have i: "i = 0 \<or> i = 1" using assms(2) by auto
  show ?thesis
  proof (cases "c \<in> set (columns df)")
    case True
    then show ?thesis using r i assms(3) by (auto simp: overwrite_def)
  next
    case False
    then have "columns df ! j \<noteq> c" using assms(3) by (metis nth_mem)
    then show ?thesis using False r i assms(3) by (auto simp: overwrite_def nth_append)
  qed
qed

lemma overwrite_value_same:
  assumes "two_rows df" and "i < 2"
  shows "value_at (overwrite c [a0, a1] df) i c = [a0, a1] ! i"
proof -
  obtain p q where r: "rows df = [p, q]" "length p = length (columns df)"
    "length q = length (columns df)" using assms(1) by (auto simp: two_rows_def)
  have i: "i = 0 \<or> i = 1" using assms(2) by auto
  show ?thesis
  proof (cases "c \<in> set (columns df)")
    case True
    then show ?thesis using r i
      by (auto simp: overwrite_def value_at_def cell_of_put_same)
  next
    case False
    have "\<And>row v. length row = length (columns df) \<Longrightarrow>
        cell_of (columns df @ [c]) (row @ [v]) c = v"
      using False by (simp add: cell_of_append_right cell_of_single)
    then show ?thesis using False r i by (auto simp: overwrite_def value_at_def)
  qed
qed

lemma overwrite_value_other:
  assumes "two_rows df" and "i < 2" and "c' \<noteq> c"
  shows "value_at (overwrite c [a0, a1] df) i c' = value_at df i c'"
proof -
  obtain p q where r: "rows df = [p, q]" "length p = length (columns df)"
    "length q = length (columns df)" using assms(1) by (auto simp: two_rows_def)
  have i: "i = 0 \<or> i = 1" using assms(2) by auto
  show ?thesis
  proof (cases "c \<in> set (columns df)")
    case True
    then show ?thesis using r i assms(3)
      by (auto simp: overwrite_def value_at_def cell_of_put_other)
  next
    case False
    have "\<And>row v. length row = length (columns df) \<Longrightarrow>
        cell_of (columns df @ [c]) (row @ [v]) c' = cell_of (columns df) row c'"
    proof -
      fix row :: "cell list" and v
      assume l: "length row = length (columns df)"
      show "cell_of (columns df @ [c]) (row @ [v]) c' = cell_of (columns df) row c'"
      proof (cases "c' \<in> set (columns df)")
        case True
        then show ?thesis using l by (simp add: cell_of_append_left)
      next
        case False
        have "cell_of (columns df @ [c]) (row @ [v]) c' = cell_of [c] [v] c'"
          using l False by (rule cell_of_append_right)
        also have "\<dots> = NaN" using assms(3) by (simp add: cell_of_absent)
        finally show ?thesis using False by (simp add: cell_of_absent)
      qed
    qed
    then show ?thesis using False r i by (auto simp: overwrite_def value_at_def)
  qed
qed

lemma overwrite_count_other:
  "c' \<noteq> c \<Longrightarrow> count_list (columns (overwrite c vals df)) c' = count_list (columns df) c'"
  by (simp add: overwrite_def)

lemma overwrite_length_rows:
  "length vals = length (rows df) \<Longrightarrow> length (rows (overwrite c vals df)) = length (rows df)"
  by (simp add: overwrite_def)

lemma overwrite_keeps:
  assumes "two_rows df" and "i < 2" and "j < length (columns df)" and "columns df ! j \<noteq> c"
  shows "rows (overwrite c [a0, a1] df) ! i ! j = rows df ! i ! j"
  using overwrite_nth [OF assms(1,2,3), of c a0 a1] assms(4) by simp

lemma overwrite_count_same:
  "count_list (columns (overwrite c vals df)) c =
     (if c \<in> set (columns df) then count_list (columns df) c else 1)"
  by (simp add: overwrite_def count_list_0_iff)

subsection \<open>Setting a column\<close>

lemma length_assign_each: "length (assign_each c vals ks row) = length row"
proof (induction ks arbitrary: vals row)
  case Nil
  show ?case by simp
next
  case (Cons k ks)
  show ?case by (cases row) (simp_all add: Cons)
qed

lemma assign_each_nth:
  "j < length row \<Longrightarrow> j < length ks \<Longrightarrow> ks ! j \<noteq> c \<Longrightarrow>
   assign_each c vals ks row ! j = row ! j"
proof (induction ks arbitrary: vals row j)
  case Nil
  then show ?case by simp
next
  case (Cons k ks)
  obtain x xs where row: "row = x # xs" using Cons.prems(1) by (cases row) auto
  show ?case
  proof (cases j)
    case 0
    then show ?thesis using Cons.prems row by simp
  next
    case (Suc j')
    then show ?thesis using Cons.prems row Cons.IH [of j' xs] by simp
  qed
qed

lemma map_of_assign_each_other:
  "c' \<noteq> c \<Longrightarrow> map_of (zip ks (assign_each c vals ks row)) c' = map_of (zip ks row) c'"
proof (induction ks arbitrary: vals row)
  case Nil
  then show ?case by simp
next
  case (Cons k ks)
  show ?case
  proof (cases row)
    case Nil
    then show ?thesis by simp
  next
    case (Cons x xs)
    then show ?thesis using Cons.IH Cons.prems by simp
  qed
qed

lemma map_of_assign_each_same:
  "c \<in> set ks \<Longrightarrow> length row = length ks \<Longrightarrow> vals \<noteq> [] \<Longrightarrow>
   map_of (zip ks (assign_each c vals ks row)) c = Some (hd vals)"
proof (induction ks arbitrary: row)
  case Nil
  then show ?case by simp
next
  case (Cons k ks)
  obtain x xs where row: "row = x # xs" using Cons.prems(2) by (cases row) auto
  obtain v vs where vals: "vals = v # vs" using Cons.prems(3) by (cases vals) auto
  show ?case
  proof (cases "k = c")
    case True
    then show ?thesis using row vals by simp
  next
    case False
    then show ?thesis using Cons.IH [of xs] Cons.prems row by simp
  qed
qed

lemma spread_columns: "columns (spread c vals df) = columns df"
  by (simp add: spread_def)

lemma spread_two_rows: "two_rows df \<Longrightarrow> two_rows (spread c vals df)"
  by (auto simp: two_rows_def spread_def length_assign_each)

lemma spread_value_other:
  "c' \<noteq> c \<Longrightarrow> i < length (rows df) \<Longrightarrow> value_at (spread c vals df) i c' = value_at df i c'"
  by (simp add: value_at_def spread_def cell_of_def map_of_assign_each_other)

lemma spread_value_same:
  "c \<in> set (columns df) \<Longrightarrow> i < length (rows df) \<Longrightarrow>
   length (rows df ! i) = length (columns df) \<Longrightarrow> vals \<noteq> [] \<Longrightarrow>
   value_at (spread c vals df) i c = hd vals"
  by (simp add: value_at_def spread_def cell_of_def map_of_assign_each_same)

lemma spread_keeps:
  "i < length (rows df) \<Longrightarrow> j < length (rows df ! i) \<Longrightarrow> j < length (columns df) \<Longrightarrow>
   columns df ! j \<noteq> c \<Longrightarrow> rows (spread c vals df) ! i ! j = rows df ! i ! j"
  by (simp add: spread_def assign_each_nth)

lemma set_column_cases:
  assumes "set_column c vals df = Inr r"
  shows "(1 < count_list (columns df) c \<and> count_list (columns df) c = length vals \<and>
            r = spread c vals df)
       \<or> (\<not> (1 < count_list (columns df) c \<and> count_list (columns df) c = length vals) \<and>
            length vals = length (rows df) \<and> r = overwrite c vals df)"
  using assms by (auto simp: set_column_def split: if_splits)

lemma set_column_defined:
  "length vals = length (rows df) \<Longrightarrow> \<exists>r. set_column c vals df = Inr r"
  by (simp add: set_column_def)

lemma two_rows_length: "two_rows df \<Longrightarrow> length (rows df) = 2"
  by (auto simp: two_rows_def)

lemma two_rows_nth:
  "two_rows df \<Longrightarrow> i < 2 \<Longrightarrow> length (rows df ! i) = length (columns df)"
proof -
  assume t: "two_rows df" and i: "i < 2"
  obtain p q where r: "rows df = [p, q]" "length p = length (columns df)"
    "length q = length (columns df)" using t by (auto simp: two_rows_def)
  have "i = 0 \<or> i = 1" using i by auto
  then show ?thesis using r by auto
qed

lemma set_column_two_rows:
  assumes "set_column c [a0, a1] df = Inr r" and "two_rows df"
  shows "two_rows r"
  using set_column_cases [OF assms(1)] assms(2)
  by (auto simp: spread_two_rows overwrite_two_rows)

lemma set_column_columns_prefix:
  assumes "set_column c vals df = Inr r" and "j < length (columns df)"
  shows "columns r ! j = columns df ! j"
  using set_column_cases [OF assms(1)] assms(2)
  by (auto simp: spread_columns overwrite_columns_prefix)

lemma set_column_length_columns:
  assumes "set_column c vals df = Inr r"
  shows "length (columns df) \<le> length (columns r)"
  using set_column_cases [OF assms(1)]
  by (auto simp: spread_columns overwrite_length_columns)

lemma set_column_count_other:
  assumes "set_column c vals df = Inr r" and "c' \<noteq> c"
  shows "count_list (columns r) c' = count_list (columns df) c'"
  using set_column_cases [OF assms(1)] assms(2)
  by (auto simp: spread_columns overwrite_count_other)

lemma set_column_count_same:
  assumes "set_column c vals df = Inr r"
  shows "count_list (columns r) c =
     (if c \<in> set (columns df) then count_list (columns df) c else 1)"
  using set_column_cases [OF assms(1)]
  by (auto simp: spread_columns overwrite_count_same count_list_0_iff)

lemma set_column_mem:
  assumes "set_column c vals df = Inr r"
  shows "c \<in> set (columns r)" and "set (columns df) \<subseteq> set (columns r)"
proof -
  have "c \<in> set (columns df) \<Longrightarrow> count_list (columns df) c \<noteq> 0"
    by (simp add: count_list_0_iff)
  then have "count_list (columns r) c \<noteq> 0"
    unfolding set_column_count_same [OF assms] by auto
  then show "c \<in> set (columns r)" by (simp add: count_list_0_iff)
  show "set (columns df) \<subseteq> set (columns r)"
    using set_column_cases [OF assms] by (auto simp: spread_columns overwrite_def)
qed

lemma set_column_value_other:
  assumes "set_column c [a0, a1] df = Inr r" and "two_rows df" and "i < 2" and "c' \<noteq> c"
  shows "value_at r i c' = value_at df i c'"
  using set_column_cases [OF assms(1)] assms(2-4)
  by (auto simp: spread_value_other overwrite_value_other two_rows_length)

lemma set_column_value_same:
  assumes "set_column c [a0, a1] df = Inr r" and "two_rows df" and "i < 2"
  shows "value_at r i c = (if count_list (columns df) c = 2 then a0 else [a0, a1] ! i)"
proof (cases "count_list (columns df) c = 2")
  case True
  then have r: "r = spread c [a0, a1] df" using set_column_cases [OF assms(1)] by auto
  have m: "c \<in> set (columns df)" using True by (metis count_list_0_iff zero_neq_numeral)
  have "value_at (spread c [a0, a1] df) i c = hd [a0, a1]"
    using m assms(2,3) by (intro spread_value_same) (simp_all add: two_rows_length two_rows_nth)
  then show ?thesis using True r by simp
next
  case False
  then have r: "r = overwrite c [a0, a1] df" using set_column_cases [OF assms(1)] by auto
  show ?thesis using False assms(2,3) unfolding r by (simp add: overwrite_value_same)
qed

lemma set_column_keeps:
  assumes "set_column c [a0, a1] df = Inr r" and "two_rows df" and "i < 2"
      and "j < length (columns df)" and "columns df ! j \<noteq> c"
  shows "rows r ! i ! j = rows df ! i ! j"
  using set_column_cases [OF assms(1)] assms(2-5)
  by (auto simp: spread_keeps overwrite_keeps two_rows_length two_rows_nth)

lemma set_scalar_two: "two_rows df \<Longrightarrow> set_scalar c v df = overwrite c [v, v] df"
  by (simp add: set_scalar_def two_rows_length numeral_2_eq_2)

subsection \<open>The shape of an extracted game\<close>

lemma summarize_length:
  "summarize soup teams bc = Inr (ss, fin) \<Longrightarrow> length ss = length teams"
proof (induction teams arbitrary: bc ss fin)
  case Nil
  then show ?case by simp
next
  case (Cons team teams)
  then show ?case
    by (auto simp: Let_def split: sum.splits prod.splits if_splits)
qed

lemma concat_summaries_shape:
  assumes "concat_summaries ss = Inr df"
  shows "length (rows df) = length ss \<and> (\<forall>r \<in> set (rows df). length r = length (columns df))"
proof (cases "\<forall>s \<in> set ss. map fst s = map fst (hd ss)")
  case True
  have ne: "ss \<noteq> []"
  proof
    assume "ss = []"
    then have "concat_summaries ss = Inl ValueError" unfolding concat_summaries_def by (rule if_P)
    then show False using assms by simp
  qed
  have "concat_summaries ss =
      Inr \<lparr>columns = map fst (hd ss), rows = map (map (\<lambda>(k, v). stat_cell v)) ss\<rparr>"
    unfolding concat_summaries_def by (subst if_not_P [OF ne]) (rule if_P [OF True])
  then have df: "df = \<lparr>columns = map fst (hd ss), rows = map (map (\<lambda>(k, v). stat_cell v)) ss\<rparr>"
    using assms by (simp only: sum.inject)
  have len: "length s = length (hd ss)" if "s \<in> set ss" for s
  proof -
    have "map fst s = map fst (hd ss)" using True that by (rule bspec)
    then have "length (map fst s) = length (map fst (hd ss))" by (rule arg_cong)
    then show ?thesis by (simp only: length_map)
  qed
  show ?thesis unfolding df using len by simp
next
  case False
  have ne: "ss \<noteq> []"
  proof
    assume "ss = []"
    then have "concat_summaries ss = Inl ValueError" unfolding concat_summaries_def by (rule if_P)
    then show False using assms by simp
  qed
  let ?keys = "drop_duplicates (concat (map (map fst) ss))"
  let ?out = "\<lparr>columns = ?keys,
      rows = map (\<lambda>s. map (\<lambda>k. case map_of s k of None \<Rightarrow> NaN | Some v \<Rightarrow> stat_cell v) ?keys) ss\<rparr>"
  have c: "concat_summaries ss =
      (if \<exists>s \<in> set ss. \<not> distinct (map fst s) then Inl ValueError else Inr ?out)"
    unfolding concat_summaries_def Let_def
    by (subst if_not_P [OF ne]) (rule if_not_P [OF False])
  have df: "df = ?out"
  proof (cases "\<exists>s \<in> set ss. \<not> distinct (map fst s)")
    case True
    then have "concat_summaries ss = Inl ValueError" unfolding c by (rule if_P)
    then show ?thesis using assms by simp
  next
    case False
    then have "concat_summaries ss = Inr ?out" unfolding c by (rule if_not_P)
    then show ?thesis using assms by (simp only: sum.inject)
  qed
  show ?thesis unfolding df by simp
qed

lemma game_frame_base:
  assumes "game_frame soup bc = Inr g"
  shows "\<exists>S R. length R = length (line_score soup) \<and> (\<forall>r \<in> set R. length r = length S) \<and>
     set_column ''home'' [IntVal 0, IntVal 1]
       \<lparr>columns = S @ [''team'', ''total''],
        rows = map2 (\<lambda>row (team, total). row @ [StrVal team, IntVal total]) R (line_score soup)\<rparr>
       = Inr g"
proof -
  obtain ss fin where su: "summarize soup (map fst (line_score soup)) bc = Inr (ss, fin)"
    using assms by (auto simp: game_frame_def split: sum.splits)
  obtain sdf where co: "concat_summaries ss = Inr sdf"
    using assms su by (auto simp: game_frame_def split: sum.splits)
  have g: "set_column ''home'' [IntVal 0, IntVal 1]
       \<lparr>columns = columns sdf @ [''team'', ''total''],
        rows = map2 (\<lambda>row (team, total). row @ [StrVal team, IntVal total])
                 (rows sdf) (line_score soup)\<rparr> = Inr g"
    using assms su co by (simp add: game_frame_def Let_def)
  have l1: "length ss = length (line_score soup)" using summarize_length [OF su] by simp
  have l2: "length (rows sdf) = length ss" and
    wf: "\<forall>r \<in> set (rows sdf). length r = length (columns sdf)"
    using concat_summaries_shape [OF co] by auto
  have "length (rows sdf) = length (line_score soup)" using l1 l2 by simp
  then show ?thesis using wf g by blast
qed

lemma game_frame_shape:
  assumes "game_frame soup bc = Inr g" and "length (line_score soup) = 2"
  shows "\<exists>S r0 r1 t0 x0 t1 x1.
     line_score soup = [(t0, x0), (t1, x1)] \<and> length r0 = length S \<and> length r1 = length S \<and>
     set_column ''home'' [IntVal 0, IntVal 1]
           \<lparr>columns = S @ [''team'', ''total''],
            rows = [r0 @ [StrVal t0, IntVal x0], r1 @ [StrVal t1, IntVal x1]]\<rparr> = Inr g"
proof -
  obtain S R where R: "length R = length (line_score soup)" "\<forall>r \<in> set R. length r = length S"
    and g: "set_column ''home'' [IntVal 0, IntVal 1]
       \<lparr>columns = S @ [''team'', ''total''],
        rows = map2 (\<lambda>row (team, total). row @ [StrVal team, IntVal total]) R (line_score soup)\<rparr>
       = Inr g"
    using game_frame_base [OF assms(1)] by blast
  obtain a b where ls: "line_score soup = [a, b]"
    using assms(2) by (metis (no_types, opaque_lifting) length_0_conv length_Suc_conv numeral_2_eq_2)
  have "length R = 2" using R(1) assms(2) by simp
  then obtain r0 r1 where rs: "R = [r0, r1]"
    by (metis (no_types, opaque_lifting) length_0_conv length_Suc_conv numeral_2_eq_2)
  obtain t0 x0 where a: "a = (t0, x0)" by (cases a)
  obtain t1 x1 where b: "b = (t1, x1)" by (cases b)
  have "length r0 = length S" "length r1 = length S" using R(2) rs by auto
  moreover have "set_column ''home'' [IntVal 0, IntVal 1]
           \<lparr>columns = S @ [''team'', ''total''],
            rows = [r0 @ [StrVal t0, IntVal x0], r1 @ [StrVal t1, IntVal x1]]\<rparr> = Inr g"
    using g ls rs a b by simp
  ultimately show ?thesis using ls a b by blast
qed

lemma game_frame_names:
  assumes "game_frame soup bc = Inr g"
  shows "''team'' \<in> set (columns g)" "''total'' \<in> set (columns g)" "''home'' \<in> set (columns g)"
proof -
  obtain S R where g: "set_column ''home'' [IntVal 0, IntVal 1]
       \<lparr>columns = S @ [''team'', ''total''],
        rows = map2 (\<lambda>row (team, total). row @ [StrVal team, IntVal total]) R (line_score soup)\<rparr>
       = Inr g"
    using game_frame_base [OF assms] by blast
  note m = set_column_mem [OF g]
  show "''home'' \<in> set (columns g)" by (rule m(1))
  show "''team'' \<in> set (columns g)" "''total'' \<in> set (columns g)" using m(2) by auto
qed

text \<open>Only a line score of two rows gets the \<open>home\<close> column, unless two columns have the name.\<close>

lemma game_frame_teams:
  assumes "game_frame soup bc = Inr g" and "count_list (columns g) ''home'' \<noteq> 2"
  shows "length (line_score soup) = 2"
proof -
  obtain S R where R: "length R = length (line_score soup)"
    and g: "set_column ''home'' [IntVal 0, IntVal 1]
       \<lparr>columns = S @ [''team'', ''total''],
        rows = map2 (\<lambda>row (team, total). row @ [StrVal team, IntVal total]) R (line_score soup)\<rparr>
       = Inr g"
    using game_frame_base [OF assms(1)] by blast
  let ?B = "\<lparr>columns = S @ [''team'', ''total''],
        rows = map2 (\<lambda>row (team, total). row @ [StrVal team, IntVal total]) R (line_score soup)\<rparr>"
  have c: "count_list (columns g) ''home'' =
      (if ''home'' \<in> set (columns ?B) then count_list (columns ?B) ''home'' else 1)"
    using g by (rule set_column_count_same)
  have "count_list (columns ?B) ''home'' \<noteq> 2"
    using assms(2) c by (auto split: if_splits)
  then have "length [IntVal 0, IntVal 1] = length (rows ?B)"
    using set_column_cases [OF g] by auto
  then show ?thesis using R by simp
qed

lemma with_opponent_two_rows:
  assumes "rows g = [p, q]" "length p = length (columns g)" "length q = length (columns g)"
  shows "with_opponent g =
     \<lparr>columns = columns g @ map (\<lambda>c. c @ ''_opp'') (columns g), rows = [p @ q, q @ p]\<rparr>"
    and "two_rows (with_opponent g)"
  using assms by (simp_all add: with_opponent_def two_rows_def)

lemma count_list_opp:
  "count_list (map (\<lambda>c. c @ ''_opp'') cols) (c @ ''_opp'') = count_list cols c"
  by (induction cols) simp_all

lemma count_list_opp_plain:
  "count_list (map (\<lambda>c. c @ ''_opp'') cols) ''total'' = 0"
  by (induction cols) (simp_all add: opp_not_plain)

lemma count_list_append: "count_list (xs @ ys) x = count_list xs x + count_list ys x"
  by (induction xs) simp_all

lemma won_column_two_rows:
  assumes "won_column df = Inr w" and "rows df = [p, q]"
  shows "count_list (columns df) ''total'' = 1 \<and> count_list (columns df) ''total_opp'' = 1 \<and>
     (\<exists>w0 w1. w = [w0, w1] \<and>
        greater (value_at df 0 ''total'') (value_at df 0 ''total_opp'') = Inr w0 \<and>
        greater (value_at df 1 ''total'') (value_at df 1 ''total_opp'') = Inr w1)"
  using assms
  by (auto simp: won_column_def value_at_def split: if_splits sum.splits)

lemma game_frame_two_rows:
  assumes "game_frame soup bc = Inr g" and "length (line_score soup) = 2"
  shows "two_rows g"
proof -
  obtain S r0 r1 t0 x0 t1 x1 where
    sh: "length r0 = length S" "length r1 = length S"
    "set_column ''home'' [IntVal 0, IntVal 1]
           \<lparr>columns = S @ [''team'', ''total''],
            rows = [r0 @ [StrVal t0, IntVal x0], r1 @ [StrVal t1, IntVal x1]]\<rparr> = Inr g"
    using game_frame_shape [OF assms] by blast
  have "two_rows \<lparr>columns = S @ [''team'', ''total''],
            rows = [r0 @ [StrVal t0, IntVal x0], r1 @ [StrVal t1, IntVal x1]]\<rparr>"
    using sh(1,2) by (simp add: two_rows_def)
  with sh(3) show ?thesis by (rule set_column_two_rows)
qed

lemma game_frame_total:
  assumes "game_frame soup bc = Inr g" and "length (line_score soup) = 2"
      and "count_list (columns g) ''total'' = 1"
  shows "\<exists>t0 x0 t1 x1. line_score soup = [(t0, x0), (t1, x1)] \<and>
           value_at g 0 ''total'' = IntVal x0 \<and> value_at g 1 ''total'' = IntVal x1"
proof -
  obtain S r0 r1 t0 x0 t1 x1 where ls: "line_score soup = [(t0, x0), (t1, x1)]" and
    sh: "length r0 = length S" "length r1 = length S"
    "set_column ''home'' [IntVal 0, IntVal 1]
           \<lparr>columns = S @ [''team'', ''total''],
            rows = [r0 @ [StrVal t0, IntVal x0], r1 @ [StrVal t1, IntVal x1]]\<rparr> = Inr g"
    using game_frame_shape [OF assms(1,2)] by blast
  let ?B = "\<lparr>columns = S @ [''team'', ''total''],
            rows = [r0 @ [StrVal t0, IntVal x0], r1 @ [StrVal t1, IntVal x1]]\<rparr>"
  have tb: "two_rows ?B" using sh(1,2) by (simp add: two_rows_def)
  have "count_list (columns ?B) ''total'' = 1"
    using assms(3) set_column_count_other [OF sh(3), of "''total''"] by simp
  then have "count_list S ''total'' = 0" by (simp add: count_list_append)
  then have notin: "''total'' \<notin> set S" by (simp add: count_list_0_iff)
  have v: "\<And>r t x. length r = length S \<Longrightarrow>
      cell_of (S @ [''team'', ''total'']) (r @ [StrVal t, IntVal x]) ''total'' = IntVal x"
    using notin by (simp add: cell_of_append_right) (simp add: cell_of_def)
  have "value_at g 0 ''total'' = value_at ?B 0 ''total''"
    using sh(3) tb by (rule set_column_value_other) simp_all
  moreover have "value_at g 1 ''total'' = value_at ?B 1 ''total''"
    using sh(3) tb by (rule set_column_value_other) simp_all
  moreover have "value_at ?B 0 ''total'' = IntVal x0" "value_at ?B 1 ''total'' = IntVal x1"
    using v sh(1,2) by (simp_all add: value_at_def)
  ultimately show ?thesis using ls by simp
qed

subsection \<open>Season and date\<close>

lemma dated_two:
  assumes "two_rows (with_opponent g)"
  shows "dated s d g = overwrite ''date'' [DateVal d, DateVal d]
           (overwrite ''season'' [StrVal s, StrVal s] (with_opponent g))"
    and "two_rows (overwrite ''season'' [StrVal s, StrVal s] (with_opponent g))"
    and "two_rows (dated s d g)"
proof -
  let ?F = "with_opponent g"
  have S: "set_scalar ''season'' (StrVal s) ?F = overwrite ''season'' [StrVal s, StrVal s] ?F"
    using assms by (rule set_scalar_two)
  show tS: "two_rows (overwrite ''season'' [StrVal s, StrVal s] ?F)"
    using assms by (rule overwrite_two_rows)
  show D: "dated s d g = overwrite ''date'' [DateVal d, DateVal d]
           (overwrite ''season'' [StrVal s, StrVal s] ?F)"
    unfolding dated_def S using tS by (rule set_scalar_two)
  show "two_rows (dated s d g)" unfolding D using tS by (rule overwrite_two_rows)
qed

lemma dated_value:
  assumes "two_rows (with_opponent g)" and "i < 2" and "c \<noteq> ''season''" and "c \<noteq> ''date''"
  shows "value_at (dated s d g) i c = value_at (with_opponent g) i c"
proof -
  note D = dated_two [OF assms(1)]
  have "value_at (dated s d g) i c =
      value_at (overwrite ''season'' [StrVal s, StrVal s] (with_opponent g)) i c"
    unfolding D(1) using D(2) assms(2,4) by (rule overwrite_value_other)
  also have "\<dots> = value_at (with_opponent g) i c"
    using assms(1,2,3) by (rule overwrite_value_other)
  finally show ?thesis .
qed

lemma dated_count:
  assumes "c \<noteq> ''season''" and "c \<noteq> ''date''"
  shows "count_list (columns (dated s d g)) c = count_list (columns (with_opponent g)) c"
  using assms by (simp add: dated_def set_scalar_def overwrite_count_other)

lemma dated_length_columns:
  "length (columns (with_opponent g)) \<le> length (columns (dated s d g))"
proof -
  let ?S = "set_scalar ''season'' (StrVal s) (with_opponent g)"
  have "length (columns (with_opponent g)) \<le> length (columns ?S)"
    unfolding set_scalar_def by (rule overwrite_length_columns)
  also have "\<dots> \<le> length (columns (dated s d g))"
    unfolding dated_def set_scalar_def by (rule overwrite_length_columns)
  finally show ?thesis .
qed

lemma dated_nth:
  assumes t: "two_rows (with_opponent g)" and i: "i < 2"
      and j: "j < length (columns (with_opponent g))"
  shows "columns (dated s d g) ! j = columns (with_opponent g) ! j"
    and "columns (with_opponent g) ! j \<noteq> ''season'' \<Longrightarrow>
         columns (with_opponent g) ! j \<noteq> ''date'' \<Longrightarrow>
         rows (dated s d g) ! i ! j = rows (with_opponent g) ! i ! j"
proof -
  let ?F = "with_opponent g"
  let ?S = "overwrite ''season'' [StrVal s, StrVal s] ?F"
  note D = dated_two [OF t]
  have lS: "length (columns ?F) \<le> length (columns ?S)" by (rule overwrite_length_columns)
  have jS: "j < length (columns ?S)" using j lS by simp
  have cS: "columns ?S ! j = columns ?F ! j" using j by (rule overwrite_columns_prefix)
  show cD: "columns (dated s d g) ! j = columns ?F ! j"
    unfolding D(1) using overwrite_columns_prefix [OF jS] cS by simp
  assume n: "columns ?F ! j \<noteq> ''season''" "columns ?F ! j \<noteq> ''date''"
  have "rows (dated s d g) ! i ! j = rows ?S ! i ! j"
    unfolding D(1) using D(2) i jS n(2) cS by (simp add: overwrite_keeps)
  also have "\<dots> = rows ?F ! i ! j" using t i j n(1) by (simp add: overwrite_keeps)
  finally show "rows (dated s d g) ! i ! j = rows ?F ! i ! j" .
qed

subsection \<open>The record of a game\<close>

lemma process_box_score_shape:
  assumes "process_box_score td soup bc = Inr out" and "length (line_score soup) = 2"
  shows "\<exists>g s d w0 w1. game_frame soup bc = Inr g \<and>
     set_column ''won'' [BoolVal w0, BoolVal w1] (dated s d g) = Inr out \<and>
     count_list (columns (with_opponent g)) ''total'' = 1 \<and>
     count_list (columns (with_opponent g)) ''total_opp'' = 1 \<and>
     greater (value_at (with_opponent g) 0 ''total'') (value_at (with_opponent g) 0 ''total_opp'')
       = Inr w0 \<and>
     greater (value_at (with_opponent g) 1 ''total'') (value_at (with_opponent g) 1 ''total_opp'')
       = Inr w1"
proof -
  obtain g where g: "game_frame soup bc = Inr g" and fg: "full_game td soup g = Inr out"
    using assms(1) by (auto simp: process_box_score_def split: sum.splits)
  have tg: "two_rows g" using g assms(2) by (rule game_frame_two_rows)
  then obtain p q where pq: "rows g = [p, q]" "length p = length (columns g)"
    "length q = length (columns g)" by (auto simp: two_rows_def)
  let ?F = "with_opponent g"
  have tF: "two_rows ?F" using pq by (rule with_opponent_two_rows(2))
  obtain s where s: "extract_season soup = Inr s"
    using fg by (auto simp: full_game_def Let_def split: sum.splits)
  obtain d where d: "td (take 8 (last_segment (path soup))) = Some d"
    using fg s by (auto simp: full_game_def Let_def split: option.splits)
  let ?D = "dated s d g"
  obtain w where w: "won_column ?D = Inr w" and out: "set_column ''won'' (map BoolVal w) ?D = Inr out"
    using fg s d by (auto simp: full_game_def Let_def dated_def split: sum.splits)
  have tD: "two_rows ?D" using tF by (rule dated_two(3))
  obtain p' q' where rD: "rows ?D = [p', q']" using tD by (auto simp: two_rows_def)
  obtain w0 w1 where ww: "w = [w0, w1]"
    and c1: "count_list (columns ?D) ''total'' = 1"
    and c2: "count_list (columns ?D) ''total_opp'' = 1"
    and g0: "greater (value_at ?D 0 ''total'') (value_at ?D 0 ''total_opp'') = Inr w0"
    and g1: "greater (value_at ?D 1 ''total'') (value_at ?D 1 ''total_opp'') = Inr w1"
    using won_column_two_rows [OF w rD] by blast
  have cF: "count_list (columns ?F) ''total'' = 1" "count_list (columns ?F) ''total_opp'' = 1"
    using c1 c2 by (simp_all add: dated_count)
  have vD: "value_at ?D i c = value_at ?F i c"
    if "i < 2" "c \<noteq> ''season''" "c \<noteq> ''date''" for i c
    using tF that by (rule dated_value)
  have "greater (value_at ?F 0 ''total'') (value_at ?F 0 ''total_opp'') = Inr w0"
    using g0 by (simp add: vD)
  moreover have "greater (value_at ?F 1 ''total'') (value_at ?F 1 ''total_opp'') = Inr w1"
    using g1 by (simp add: vD)
  moreover have "set_column ''won'' [BoolVal w0, BoolVal w1] ?D = Inr out" using out ww by simp
  ultimately show ?thesis using g cF by blast
qed

lemma with_opponent_values:
  assumes pq: "rows g = [p, q]" "length p = length (columns g)" "length q = length (columns g)"
      and c: "c \<in> set (columns g)" and o: "c @ ''_opp'' \<notin> set (columns g)"
  shows "value_at (with_opponent g) 0 c = value_at g 0 c"
    and "value_at (with_opponent g) 1 c = value_at g 1 c"
    and "value_at (with_opponent g) 0 (c @ ''_opp'') = value_at g 1 c"
    and "value_at (with_opponent g) 1 (c @ ''_opp'') = value_at g 0 c"
proof -
  have F: "with_opponent g =
     \<lparr>columns = columns g @ map (\<lambda>c. c @ ''_opp'') (columns g), rows = [p @ q, q @ p]\<rparr>"
    using pq by (rule with_opponent_two_rows(1))
  show "value_at (with_opponent g) 0 c = value_at g 0 c"
    unfolding F using pq c by (simp add: value_at_def cell_of_append_left)
  show "value_at (with_opponent g) 1 c = value_at g 1 c"
    unfolding F using pq c by (simp add: value_at_def cell_of_append_left)
  show "value_at (with_opponent g) 0 (c @ ''_opp'') = value_at g 1 c"
    unfolding F using pq o by (simp add: value_at_def cell_of_append_right cell_of_opp)
  show "value_at (with_opponent g) 1 (c @ ''_opp'') = value_at g 0 c"
    unfolding F using pq o by (simp add: value_at_def cell_of_append_right cell_of_opp)
qed

lemma greater_IntVal: "greater (IntVal a) (IntVal b) = Inr w \<Longrightarrow> w = (a > b)"
  by simp

lemma extracted_totals:
  assumes "process_box_score td soup bc = Inr out" and "length (line_score soup) = 2"
  shows "\<exists>t0 x0 t1 x1. line_score soup = [(t0, x0), (t1, x1)] \<and> length (rows out) = 2 \<and>
     value_at out 0 ''total'' = IntVal x0 \<and> value_at out 0 ''total_opp'' = IntVal x1 \<and>
     value_at out 1 ''total'' = IntVal x1 \<and> value_at out 1 ''total_opp'' = IntVal x0 \<and>
     value_at out 0 ''won'' = BoolVal (x0 > x1) \<and>
     value_at out 1 ''won'' =
       (if count_list (columns out) ''won'' = 2 then BoolVal (x0 > x1) else BoolVal (x1 > x0))"
proof -
  obtain g s d w0 w1 where g: "game_frame soup bc = Inr g"
    and out: "set_column ''won'' [BoolVal w0, BoolVal w1] (dated s d g) = Inr out"
    and c1: "count_list (columns (with_opponent g)) ''total'' = 1"
    and c2: "count_list (columns (with_opponent g)) ''total_opp'' = 1"
    and g0: "greater (value_at (with_opponent g) 0 ''total'')
               (value_at (with_opponent g) 0 ''total_opp'') = Inr w0"
    and g1: "greater (value_at (with_opponent g) 1 ''total'')
               (value_at (with_opponent g) 1 ''total_opp'') = Inr w1"
    using process_box_score_shape [OF assms] by blast
  have tg: "two_rows g" using g assms(2) by (rule game_frame_two_rows)
  then obtain p q where pq: "rows g = [p, q]" "length p = length (columns g)"
    "length q = length (columns g)" by (auto simp: two_rows_def)
  have tF: "two_rows (with_opponent g)" using pq by (rule with_opponent_two_rows(2))
  have tD: "two_rows (dated s d g)" using tF by (rule dated_two(3))
  have cols: "columns (with_opponent g) = columns g @ map (\<lambda>c. c @ ''_opp'') (columns g)"
    by (simp add: with_opponent_def)
  have cG: "count_list (columns g) ''total'' = 1"
    using c1 unfolding cols by (simp add: count_list_append count_list_opp_plain)
  have "count_list (map (\<lambda>c. c @ ''_opp'') (columns g)) (''total'' @ ''_opp'')
      = count_list (columns g) ''total''" by (rule count_list_opp)
  then have "count_list (columns g) ''total_opp'' = 0"
    using c2 cG unfolding cols by (simp add: count_list_append)
  then have o: "''total'' @ ''_opp'' \<notin> set (columns g)" by (simp add: count_list_0_iff)
  have c: "''total'' \<in> set (columns g)" using cG by (metis count_list_0_iff zero_neq_one)
  obtain t0 x0 t1 x1 where ls: "line_score soup = [(t0, x0), (t1, x1)]"
    and v0: "value_at g 0 ''total'' = IntVal x0" and v1: "value_at g 1 ''total'' = IntVal x1"
    using game_frame_total [OF g assms(2) cG] by blast
  note wo = with_opponent_values [OF pq c o]
  have F0: "value_at (with_opponent g) 0 ''total'' = IntVal x0" using wo(1) v0 by simp
  have F1: "value_at (with_opponent g) 1 ''total'' = IntVal x1" using wo(2) v1 by simp
  have O0: "value_at (with_opponent g) 0 ''total_opp'' = IntVal x1" using wo(3) v1 by simp
  have O1: "value_at (with_opponent g) 1 ''total_opp'' = IntVal x0" using wo(4) v0 by simp
  have w0: "w0 = (x0 > x1)" using g0 unfolding F0 O0 by (rule greater_IntVal)
  have w1: "w1 = (x1 > x0)" using g1 unfolding F1 O1 by (rule greater_IntVal)
  have "two_rows out" using out tD by (rule set_column_two_rows)
  then have len: "length (rows out) = 2" by (rule two_rows_length)
  have keep: "value_at out i c = value_at (with_opponent g) i c"
    if "i < 2" "c \<noteq> ''season''" "c \<noteq> ''date''" "c \<noteq> ''won''" for i c
  proof -
    have "value_at out i c = value_at (dated s d g) i c"
      using out tD that(1,4) by (rule set_column_value_other)
    also have "\<dots> = value_at (with_opponent g) i c" using tF that(1,2,3) by (rule dated_value)
    finally show ?thesis .
  qed
  have a: "value_at out 0 ''total'' = IntVal x0" "value_at out 1 ''total'' = IntVal x1"
    "value_at out 0 ''total_opp'' = IntVal x1" "value_at out 1 ''total_opp'' = IntVal x0"
    using F0 F1 O0 O1 by (simp_all add: keep)
  have cw: "count_list (columns out) ''won'' =
      (if ''won'' \<in> set (columns (dated s d g)) then count_list (columns (dated s d g)) ''won''
       else 1)"
    using out by (rule set_column_count_same)
  have e: "(count_list (columns out) ''won'' = 2) = (count_list (columns (dated s d g)) ''won'' = 2)"
    unfolding cw by (auto simp: count_list_0_iff)
  have b0: "value_at out 0 ''won'' = BoolVal (x0 > x1)"
    using set_column_value_same [OF out tD, of 0] w0 by simp
  have b1: "value_at out 1 ''won'' =
       (if count_list (columns out) ''won'' = 2 then BoolVal (x0 > x1) else BoolVal (x1 > x0))"
    using set_column_value_same [OF out tD, of 1] w0 w1 unfolding e by simp
  show ?thesis using ls len a b0 b1 by blast
qed

lemma extracted_mirror:
  assumes "process_box_score td soup bc = Inr out" and "length (line_score soup) = 2"
  shows "\<exists>g. game_frame soup bc = Inr g \<and> 2 * length (columns g) \<le> length (columns out) \<and>
     (\<forall>j < length (columns g).
        columns out ! j = columns g ! j \<and>
        columns out ! (length (columns g) + j) = columns g ! j @ ''_opp'' \<and>
        (columns g ! j \<noteq> ''season'' \<and> columns g ! j \<noteq> ''date'' \<and> columns g ! j \<noteq> ''won''
           \<longrightarrow> rows out ! 0 ! (length (columns g) + j) = rows out ! 1 ! j \<and>
               rows out ! 1 ! (length (columns g) + j) = rows out ! 0 ! j))"
proof -
  obtain g s d w0 w1 where g: "game_frame soup bc = Inr g"
    and out: "set_column ''won'' [BoolVal w0, BoolVal w1] (dated s d g) = Inr out"
    using process_box_score_shape [OF assms] by blast
  have tg: "two_rows g" using g assms(2) by (rule game_frame_two_rows)
  then obtain p q where pq: "rows g = [p, q]" "length p = length (columns g)"
    "length q = length (columns g)" by (auto simp: two_rows_def)
  let ?G = "columns g"
  let ?n = "length ?G"
  let ?F = "with_opponent g"
  let ?D = "dated s d g"
  have F: "?F = \<lparr>columns = ?G @ map (\<lambda>c. c @ ''_opp'') ?G, rows = [p @ q, q @ p]\<rparr>"
    using pq by (rule with_opponent_two_rows(1))
  have tF: "two_rows ?F" using pq by (rule with_opponent_two_rows(2))
  have tD: "two_rows ?D" using tF by (rule dated_two(3))
  have lF: "length (columns ?F) = 2 * ?n" unfolding F by simp
  have lD: "length (columns ?F) \<le> length (columns ?D)" by (rule dated_length_columns)
  have lO: "length (columns ?D) \<le> length (columns out)" using out by (rule set_column_length_columns)
  have len: "2 * ?n \<le> length (columns out)" using lF lD lO by simp
  have step: "columns out ! j = ?G ! j \<and> columns out ! (?n + j) = ?G ! j @ ''_opp'' \<and>
        (?G ! j \<noteq> ''season'' \<and> ?G ! j \<noteq> ''date'' \<and> ?G ! j \<noteq> ''won''
           \<longrightarrow> rows out ! 0 ! (?n + j) = rows out ! 1 ! j \<and> rows out ! 1 ! (?n + j) = rows out ! 0 ! j)"
    if j: "j < ?n" for j
  proof -
    have j1: "j < length (columns ?F)" and j2: "?n + j < length (columns ?F)"
      using j lF by simp_all
    have k1: "j < length (columns ?D)" and k2: "?n + j < length (columns ?D)"
      using j1 j2 lD by simp_all
    have cj: "columns ?F ! j = ?G ! j" unfolding F using j by (simp add: nth_append)
    have cnj: "columns ?F ! (?n + j) = ?G ! j @ ''_opp''" unfolding F using j by (simp add: nth_append)
    have dj: "columns ?D ! j = ?G ! j" using dated_nth(1) [OF tF _ j1, of 0 s d] cj by simp
    have dnj: "columns ?D ! (?n + j) = ?G ! j @ ''_opp''"
      using dated_nth(1) [OF tF _ j2, of 0 s d] cnj by simp
    have oj: "columns out ! j = ?G ! j"
      using set_column_columns_prefix [OF out k1] dj by simp
    have onj: "columns out ! (?n + j) = ?G ! j @ ''_opp''"
      using set_column_columns_prefix [OF out k2] dnj by simp
    have r0: "rows ?F ! 0 ! (?n + j) = q ! j" "rows ?F ! 1 ! (?n + j) = p ! j"
      "rows ?F ! 0 ! j = p ! j" "rows ?F ! 1 ! j = q ! j"
      unfolding F using j pq by (simp_all add: nth_append)
    have mir: "rows out ! i ! (?n + j) = rows ?F ! i ! (?n + j)" if "i < 2" for i
    proof -
      have "rows out ! i ! (?n + j) = rows ?D ! i ! (?n + j)"
        using out tD that k2 by (rule set_column_keeps) (simp add: dnj opp_not_plain)
      also have "\<dots> = rows ?F ! i ! (?n + j)"
        using dated_nth(2) [OF tF that j2, of s d] cnj by (simp add: opp_not_plain)
      finally show ?thesis .
    qed
    have own: "rows out ! i ! j = rows ?F ! i ! j"
      if "i < 2" "?G ! j \<noteq> ''season''" "?G ! j \<noteq> ''date''" "?G ! j \<noteq> ''won''" for i
    proof -
      have "rows out ! i ! j = rows ?D ! i ! j"
        using out tD that(1) k1 by (rule set_column_keeps) (simp add: dj that)
      also have "\<dots> = rows ?F ! i ! j"
        using dated_nth(2) [OF tF that(1) j1, of s d] cj that by simp
      finally show ?thesis .
    qed
    show ?thesis using oj onj mir [of 0] mir [of 1] own [of 0] own [of 1] r0 by simp
  qed
  show ?thesis using g len step by blast
qed

subsection \<open>The example game\<close>

lemma lower_simps:
  "lower ''MP'' = ''mp''" "lower ''PTS'' = ''pts''" "lower ''+/-'' = ''+/-''"
  "lower ''TS%'' = ''ts%''" "lower ''BPM'' = ''bpm''"
  by (simp_all add: lower_def lower_char_def)

lemma example_summary_LAL:
  "build_summary (example_game lal bos) ''LAL'' =
     Inr [(''mp'', Some 240), (''pts'', Some 104), (''+/-'', None),
          (''mp'', Some 240), (''ts%'', Some 0.55), (''bpm'', None),
          (''mp_max'', None), (''pts_max'', Some 30), (''+/-_max'', Some 4),
          (''mp_max'', None), (''ts%_max'', Some 0.61), (''bpm_max'', Some 3.5)]"
  by (simp add: build_summary_def extract_team_stats_def example_game_def example_basic_def
      example_advanced_def last_row_def player_max_def column_maxima_def relabel_def lower_simps)

lemma example_summary_BOS:
  "build_summary (example_game lal bos) ''BOS'' =
     Inr [(''mp'', Some 240), (''pts'', Some 110), (''+/-'', None),
          (''mp'', Some 240), (''ts%'', Some 0.55), (''bpm'', None),
          (''mp_max'', None), (''pts_max'', Some 33), (''+/-_max'', Some 4),
          (''mp_max'', None), (''ts%_max'', Some 0.61), (''bpm_max'', Some 3.5)]"
  by (simp add: build_summary_def extract_team_stats_def example_game_def example_basic_def
      example_advanced_def last_row_def player_max_def column_maxima_def relabel_def lower_simps)

lemma example_summarize:
  "summarize (example_game lal bos) [''LAL'', ''BOS''] PyNone =
     Inr ([[(''mp'', Some 240), (''mp'', Some 240), (''pts'', Some 104), (''+/-'', None),
            (''ts%'', Some 0.55), (''mp_max'', None), (''mp_max'', None), (''pts_max'', Some 30),
            (''+/-_max'', Some 4), (''ts%_max'', Some 0.61)],
           [(''mp'', Some 240), (''mp'', Some 240), (''pts'', Some 110), (''+/-'', None),
            (''ts%'', Some 0.55), (''mp_max'', None), (''mp_max'', None), (''pts_max'', Some 33),
            (''+/-_max'', Some 4), (''ts%_max'', Some 0.61)]],
          PyList example_columns)"
  by (simp add: example_summary_LAL example_summary_BOS example_columns_def)

lemma example_line_score: "line_score (example_game lal bos) = [(''LAL'', lal), (''BOS'', bos)]"
  by (simp add: example_game_def)

lemma example_game_frame:
  "game_frame (example_game lal bos) PyNone =
     Inr \<lparr>columns = [''mp'', ''mp'', ''pts'', ''+/-'', ''ts%'', ''mp_max'', ''mp_max'',
                     ''pts_max'', ''+/-_max'', ''ts%_max'', ''team'', ''total'', ''home''],
          rows = [[NumVal 240, NumVal 240, NumVal 104, NaN, NumVal 0.55, NaN, NaN, NumVal 30,
                   NumVal 4, NumVal 0.61, StrVal ''LAL'', IntVal lal, IntVal 0],
                  [NumVal 240, NumVal 240, NumVal 110, NaN, NumVal 0.55, NaN, NaN, NumVal 33,
                   NumVal 4, NumVal 0.61, StrVal ''BOS'', IntVal bos, IntVal 1]]\<rparr>"
  by (simp add: game_frame_def example_line_score example_summarize concat_summaries_def
      stat_cell_def set_column_def overwrite_def del: summarize.simps)

lemma example_season: "extract_season (example_game lal bos) = Inr ''NBA''"
  by (simp add: extract_season_def example_game_def last_segment_def)

lemma example_date:
  "example_to_datetime (take 8 (last_segment (path (example_game lal bos)))) = Some ''2016-10-26''"
  by (simp add: example_to_datetime_def example_game_def last_segment_def)

lemma example_extracted:
  "process_box_score example_to_datetime (example_game lal bos) PyNone = Inr (example_frame lal bos)"
  by (simp add: process_box_score_def example_game_frame full_game_def with_opponent_def
      example_season example_date set_column_def set_scalar_def overwrite_def won_column_def
      cell_of_def example_frame_def Let_def numeral_2_eq_2)

lemma example_tables:
  "extract_team_stats (example_game lal bos) ''LAL'' ''basic'' = Inr (example_basic 30 21 104)"
  "extract_team_stats (example_game lal bos) ''LAL'' ''advanced'' = Inr example_advanced"
  "well_formed (example_basic 30 21 104)" "well_formed example_advanced"
  "float_exact (example_basic 30 21 104)" "float_exact example_advanced"
  by (simp_all add: extract_team_stats_def example_game_def well_formed_def float_exact_def
      example_basic_def example_advanced_def)

lemma example_values:
  "value_at (example_frame lal bos) 0 ''total'' = IntVal lal"
  "value_at (example_frame lal bos) 1 ''total'' = IntVal bos"
  "value_at (example_frame lal bos) 0 ''total_opp'' = IntVal bos"
  "value_at (example_frame lal bos) 1 ''total_opp'' = IntVal lal"
  "value_at (example_frame lal bos) 0 ''won'' = BoolVal (lal > bos)"
  "value_at (example_frame lal bos) 1 ''won'' = BoolVal (bos > lal)"
  "length (rows (example_frame lal bos)) = 2"
  by (simp_all add: value_at_def cell_of_def example_frame_def)

lemma summarize_Index:
  "summarize soup (team # teams) (PdIndex cols) =
     (case build_summary soup team of Inl e \<Rightarrow> Inl e | Inr summary \<Rightarrow> Inl ValueError)"
  by (simp split: sum.splits)

lemma process_box_score_Index:
  "process_box_score to_datetime box_score (PdIndex cols) \<noteq> Inr out"
proof (cases "map fst (line_score box_score)")
  case Nil
  then show ?thesis
    by (simp add: process_box_score_def game_frame_def concat_summaries_def)
next
  case (Cons team teams)
  then show ?thesis
    by (simp add: process_box_score_def game_frame_def summarize_Index del: summarize.simps
        split: sum.splits)
qed

lemma example_second:
  "process_box_score example_to_datetime (example_game lal bos) (PdIndex cols) = Inl ValueError"
  by (simp add: process_box_score_def game_frame_def example_line_score summarize_Index
      example_summary_LAL del: summarize.simps)

lemma process_box_score_home:
  assumes "process_box_score td soup bc = Inr out" and "count_list (columns out) ''home'' \<noteq> 2"
  shows "length (line_score soup) = 2"
proof -
  obtain g where g: "game_frame soup bc = Inr g" and fg: "full_game td soup g = Inr out"
    using assms(1) by (auto simp: process_box_score_def split: sum.splits)
  obtain s d w where out: "set_column ''won'' w (dated s d g) = Inr out"
    using fg by (auto simp: full_game_def Let_def dated_def split: sum.splits option.splits)
  have "count_list (columns out) ''home'' = count_list (columns (dated s d g)) ''home''"
    using out by (rule set_column_count_other) simp
  also have "\<dots> = count_list (columns (with_opponent g)) ''home''"
    by (rule dated_count) simp_all
  also have "\<dots> = count_list (columns g) ''home''"
  proof -
    have "count_list (map (\<lambda>c. c @ ''_opp'') cols) ''home'' = 0" for cols
      by (induction cols) (simp_all add: opp_not_plain)
    then show ?thesis by (simp add: with_opponent_def count_list_append)
  qed
  finally have "count_list (columns g) ''home'' \<noteq> 2" using assms(2) by simp
  with g show ?thesis by (rule game_frame_teams)
qed

lemma example_facts:
  "length (line_score (example_game lal bos)) = 2"
  "count_list (columns (example_frame lal bos)) ''won'' = 1"
  "count_list (columns (example_frame lal bos)) ''home'' = 1"
  by (simp_all add: example_game_def example_frame_def)

lemma lower_Season: "lower ''Season'' = ''season''"
  by (simp add: lower_def lower_char_def)

lemma season_summary:
  "build_summary season_game ''LAL'' =
     Inr [(''season'', Some 7), (''ts%'', Some 0.5), (''season_max'', Some 7), (''ts%_max'', Some 0.5)]"
  "build_summary season_game ''BOS'' =
     Inr [(''season'', Some 9), (''ts%'', Some 0.5), (''season_max'', Some 9), (''ts%_max'', Some 0.5)]"
  by (simp_all add: build_summary_def extract_team_stats_def season_game_def last_row_def
      player_max_def column_maxima_def relabel_def lower_simps lower_Season)

lemma season_summarize:
  "summarize season_game [''LAL'', ''BOS''] PyNone =
     Inr ([[(''season'', Some 7), (''ts%'', Some 0.5), (''season_max'', Some 7), (''ts%_max'', Some 0.5)],
           [(''season'', Some 9), (''ts%'', Some 0.5), (''season_max'', Some 9), (''ts%_max'', Some 0.5)]],
          PyList [''season'', ''ts%'', ''season_max'', ''ts%_max''])"
  by (simp add: season_summary)

lemma season_line_score: "line_score season_game = [(''LAL'', 104), (''BOS'', 110)]"
  by (simp add: season_game_def)

lemma season_game_frame:
  "game_frame season_game PyNone =
     Inr \<lparr>columns = [''season'', ''ts%'', ''season_max'', ''ts%_max'', ''team'', ''total'', ''home''],
          rows = [[NumVal 7, NumVal 0.5, NumVal 7, NumVal 0.5, StrVal ''LAL'', IntVal 104, IntVal 0],
                  [NumVal 9, NumVal 0.5, NumVal 9, NumVal 0.5, StrVal ''BOS'', IntVal 110, IntVal 1]]\<rparr>"
  by (simp add: game_frame_def season_line_score season_summarize concat_summaries_def
      stat_cell_def set_column_def overwrite_def del: summarize.simps)

lemma season_extracted:
  "process_box_score example_to_datetime season_game PyNone = Inr season_frame"
proof -
  have s: "extract_season season_game = Inr ''NBA''"
    by (simp add: extract_season_def season_game_def last_segment_def)
  have d: "example_to_datetime (take 8 (last_segment (path season_game))) = Some ''2016-10-26''"
    by (simp add: example_to_datetime_def season_game_def last_segment_def)
  show ?thesis
    by (simp add: process_box_score_def season_game_frame full_game_def with_opponent_def
      s d set_column_def set_scalar_def overwrite_def won_column_def
      cell_of_def season_frame_def Let_def numeral_2_eq_2)
qed

subsection \<open>Other totals in the line score\<close>

lemma extract_team_stats_line_score:
  "extract_team_stats (soup\<lparr>line_score := l\<rparr>) team stat_type =
     extract_team_stats soup team stat_type"
  by (simp add: extract_team_stats_def)

lemma build_summary_line_score:
  "build_summary (soup\<lparr>line_score := l\<rparr>) team = build_summary soup team"
  unfolding build_summary_def extract_team_stats_line_score by (rule refl)

lemma summarize_line_score:
  "summarize (soup\<lparr>line_score := l\<rparr>) teams bc = summarize soup teams bc"
proof (induction teams arbitrary: bc)
  case Nil
  show ?case by simp
next
  case (Cons team teams)
  have "summarize (soup\<lparr>line_score := l\<rparr>) teams b = summarize soup teams b" for b
    by (rule Cons)
  then show ?case
    unfolding summarize.simps build_summary_line_score by (simp only:)
qed

lemma extract_season_line_score:
  "extract_season (soup\<lparr>line_score := l\<rparr>) = extract_season soup"
  by (simp add: extract_season_def)

lemma set_column_same_columns:
  assumes "set_column c vals df = Inr r" and "columns df' = columns df"
      and "length (rows df') = length (rows df)"
  shows "\<exists>r'. set_column c vals df' = Inr r' \<and> columns r' = columns r"
  using assms by (auto simp: set_column_def spread_def overwrite_def split: if_splits)

lemma game_frame_retotal:
  assumes "game_frame (soup\<lparr>line_score := [(t0, x0), (t1, x1)]\<rparr>) bc = Inr g"
  shows "\<exists>g'. game_frame (soup\<lparr>line_score := [(t0, y0), (t1, y1)]\<rparr>) bc = Inr g' \<and>
           columns g' = columns g"
proof -
  let ?a = "soup\<lparr>line_score := [(t0, x0), (t1, x1)]\<rparr>"
  let ?b = "soup\<lparr>line_score := [(t0, y0), (t1, y1)]\<rparr>"
  obtain ss fin where su: "summarize soup [t0, t1] bc = Inr (ss, fin)"
    using assms by (auto simp: game_frame_def summarize_line_score simp del: summarize.simps
        split: sum.splits)
  obtain sdf where co: "concat_summaries ss = Inr sdf"
    using assms su by (auto simp: game_frame_def summarize_line_score simp del: summarize.simps
        split: sum.splits)
  let ?A = "\<lparr>columns = columns sdf @ [''team'', ''total''],
        rows = map2 (\<lambda>row (team, total). row @ [StrVal team, IntVal total])
                 (rows sdf) [(t0, x0), (t1, x1)]\<rparr>"
  let ?B = "\<lparr>columns = columns sdf @ [''team'', ''total''],
        rows = map2 (\<lambda>row (team, total). row @ [StrVal team, IntVal total])
                 (rows sdf) [(t0, y0), (t1, y1)]\<rparr>"
  have A: "set_column ''home'' [IntVal 0, IntVal 1] ?A = Inr g"
    using assms su co by (simp add: game_frame_def summarize_line_score Let_def del: summarize.simps)
  have B: "game_frame ?b bc = set_column ''home'' [IntVal 0, IntVal 1] ?B"
    using su co by (simp add: game_frame_def summarize_line_score Let_def del: summarize.simps)
  have "columns ?B = columns ?A" by simp
  moreover have "length (rows ?B) = length (rows ?A)" by simp
  ultimately obtain g' where "set_column ''home'' [IntVal 0, IntVal 1] ?B = Inr g'"
    "columns g' = columns g"
    using set_column_same_columns [OF A] by blast
  then show ?thesis using B by simp
qed

lemma process_box_score_parts:
  assumes "process_box_score td soup bc = Inr out"
  shows "\<exists>g s d w. game_frame soup bc = Inr g \<and> extract_season soup = Inr s \<and>
     td (take 8 (last_segment (path soup))) = Some d \<and> won_column (dated s d g) = Inr w"
proof -
  obtain g where g: "game_frame soup bc = Inr g" and fg: "full_game td soup g = Inr out"
    using assms(1) by (auto simp: process_box_score_def split: sum.splits)
  obtain s where s: "extract_season soup = Inr s"
    using fg by (auto simp: full_game_def Let_def split: sum.splits)
  obtain d where d: "td (take 8 (last_segment (path soup))) = Some d"
    using fg s by (auto simp: full_game_def Let_def split: option.splits)
  obtain w where w: "won_column (dated s d g) = Inr w"
    using fg s d by (auto simp: full_game_def Let_def dated_def split: sum.splits)
  show ?thesis using g s d w by blast
qed

lemma won_column_counts:
  assumes "won_column (dated s d g) = Inr w"
  shows "count_list (columns g) ''total'' = 1" and "count_list (columns g) ''total_opp'' = 0"
proof -
  have c: "count_list (columns (dated s d g)) ''total'' = 1"
    "count_list (columns (dated s d g)) ''total_opp'' = 1"
    using assms by (auto simp: won_column_def split: if_splits)
  have cols: "columns (with_opponent g) = columns g @ map (\<lambda>c. c @ ''_opp'') (columns g)"
    by (simp add: with_opponent_def)
  have c1: "count_list (columns (with_opponent g)) ''total'' = 1"
    and c2: "count_list (columns (with_opponent g)) ''total_opp'' = 1"
    using c by (simp_all add: dated_count)
  show cG: "count_list (columns g) ''total'' = 1"
    using c1 unfolding cols by (simp add: count_list_append count_list_opp_plain)
  have "count_list (map (\<lambda>c. c @ ''_opp'') (columns g)) (''total'' @ ''_opp'')
      = count_list (columns g) ''total''" by (rule count_list_opp)
  then show "count_list (columns g) ''total_opp'' = 0"
    using c2 cG unfolding cols by (simp add: count_list_append)
qed

lemma process_box_score_succeeds:
  assumes g: "game_frame soup bc = Inr g" and two: "length (line_score soup) = 2"
      and s: "extract_season soup = Inr s"
      and d: "td (take 8 (last_segment (path soup))) = Some d"
      and cG: "count_list (columns g) ''total'' = 1"
      and cO: "count_list (columns g) ''total_opp'' = 0"
  shows "\<exists>out. process_box_score td soup bc = Inr out"
proof -
  have tg: "two_rows g" using g two by (rule game_frame_two_rows)
  then obtain p q where pq: "rows g = [p, q]" "length p = length (columns g)"
    "length q = length (columns g)" by (auto simp: two_rows_def)
  let ?F = "with_opponent g"
  let ?D = "dated s d g"
  have tF: "two_rows ?F" using pq by (rule with_opponent_two_rows(2))
  have tD: "two_rows ?D" using tF by (rule dated_two(3))
  obtain p' q' where rD: "rows ?D = [p', q']" using tD by (auto simp: two_rows_def)
  have cols: "columns ?F = columns g @ map (\<lambda>c. c @ ''_opp'') (columns g)"
    by (simp add: with_opponent_def)
  have "count_list (map (\<lambda>c. c @ ''_opp'') (columns g)) (''total'' @ ''_opp'')
      = count_list (columns g) ''total''" by (rule count_list_opp)
  then have cF: "count_list (columns ?F) ''total'' = 1" "count_list (columns ?F) ''total_opp'' = 1"
    using cG cO unfolding cols by (simp_all add: count_list_append count_list_opp_plain)
  have cD: "count_list (columns ?D) ''total'' = 1" "count_list (columns ?D) ''total_opp'' = 1"
    using cF by (simp_all add: dated_count)
  have o: "''total'' @ ''_opp'' \<notin> set (columns g)" using cO by (simp add: count_list_0_iff)
  have c: "''total'' \<in> set (columns g)" using cG by (metis count_list_0_iff zero_neq_one)
  obtain t0 x0 t1 x1 where
    v0: "value_at g 0 ''total'' = IntVal x0" and v1: "value_at g 1 ''total'' = IntVal x1"
    using game_frame_total [OF g two cG] by blast
  note wo = with_opponent_values [OF pq c o]
  have vD: "value_at ?D i c = value_at ?F i c"
    if "i < 2" "c \<noteq> ''season''" "c \<noteq> ''date''" for i c
    using tF that by (rule dated_value)
  have D0: "value_at ?D 0 ''total'' = IntVal x0" "value_at ?D 0 ''total_opp'' = IntVal x1"
    "value_at ?D 1 ''total'' = IntVal x1" "value_at ?D 1 ''total_opp'' = IntVal x0"
    using wo v0 v1 by (simp_all add: vD)
  have cells: "cell_of (columns ?D) p' ''total'' = IntVal x0"
    "cell_of (columns ?D) p' ''total_opp'' = IntVal x1"
    "cell_of (columns ?D) q' ''total'' = IntVal x1"
    "cell_of (columns ?D) q' ''total_opp'' = IntVal x0"
    using D0 rD by (simp_all add: value_at_def)
  have m: "''total'' \<in> set (columns ?D)" "''total_opp'' \<in> set (columns ?D)"
    using cD by (metis count_list_0_iff zero_neq_one)+
  have w: "won_column ?D = Inr [x0 > x1, x1 > x0]"
    using m cD by (simp add: won_column_def rD cells)
  have "length (map BoolVal [x0 > x1, x1 > x0]) = length (rows ?D)" using rD by simp
  then obtain out where out: "set_column ''won'' (map BoolVal [x0 > x1, x1 > x0]) ?D = Inr out"
    using set_column_defined by blast
  have "full_game td soup g = Inr out"
    using s d w out by (simp add: full_game_def Let_def dated_def [symmetric])
  then show ?thesis using g by (simp add: process_box_score_def)
qed

lemma tie_extracts:
  assumes "process_box_score td (soup\<lparr>line_score := [(t0, x0), (t1, x1)]\<rparr>) bc = Inr out0"
  shows "\<exists>out. process_box_score td (soup\<lparr>line_score := [(t0, y0), (t1, y1)]\<rparr>) bc = Inr out"
proof -
  let ?a = "soup\<lparr>line_score := [(t0, x0), (t1, x1)]\<rparr>"
  let ?b = "soup\<lparr>line_score := [(t0, y0), (t1, y1)]\<rparr>"
  obtain g s d w where g: "game_frame ?a bc = Inr g" and s: "extract_season ?a = Inr s"
    and d: "td (take 8 (last_segment (path ?a))) = Some d"
    and w: "won_column (dated s d g) = Inr w"
    using process_box_score_parts [OF assms] by blast
  note c = won_column_counts [OF w]
  obtain g' where g': "game_frame ?b bc = Inr g'" and cg: "columns g' = columns g"
    using game_frame_retotal [OF g] by blast
  have s': "extract_season ?b = Inr s" using s by (simp add: extract_season_line_score)
  have d': "td (take 8 (last_segment (path ?b))) = Some d" using d by simp
  have two: "length (line_score ?b) = 2" by simp
  show ?thesis
    using g' two s' d' by (rule process_box_score_succeeds) (simp_all add: cg c)
qed

lemma example_retotal:
  "(example_game lal bos)\<lparr>line_score := [(''LAL'', x), (''BOS'', y)]\<rparr> = example_game x y"
  by (simp add: example_game_def)

subsection \<open>The entries of a summary\<close>

lemma set_numbers: "set (numbers vs) = {y. Some y \<in> set vs}"
  by (induction vs) (auto simp: numbers_def split: option.splits)

lemma maximum_is_max: "is_max_of (maximum vs) vs"
proof (cases "numbers vs = []")
  case True
  then have "{y. Some y \<in> set vs} = {}" using set_numbers [of vs] by simp
  then have "\<forall>v \<in> set vs. v = None" by (metis (mono_tags, lifting) empty_iff mem_Collect_eq not_None_eq)
  then show ?thesis using True by (simp add: maximum_def is_max_of_def)
next
  case False
  let ?S = "set (numbers vs)"
  have f: "finite ?S" and ne: "?S \<noteq> {}" using False by simp_all
  have "Max ?S \<in> ?S" using f ne by (rule Max_in)
  then have a: "Some (Max ?S) \<in> set vs" by (simp add: set_numbers)
  have b: "\<forall>y. Some y \<in> set vs \<longrightarrow> y \<le> Max ?S"
  proof (intro allI impI)
    fix y
    assume "Some y \<in> set vs"
    then have "y \<in> ?S" by (simp add: set_numbers)
    then show "y \<le> Max ?S" using f by (rule Max_ge [rotated])
  qed
  show ?thesis using False a b by (simp add: maximum_def is_max_of_def)
qed

lemma is_max_of_unique:
  assumes "is_max_of m vs"
  shows "m = maximum vs"
proof (cases m)
  case None
  then have "\<forall>v \<in> set vs. v = None" using assms by (simp add: is_max_of_def)
  then have "{y. Some y \<in> set vs} = {}" by auto
  then have "numbers vs = []" using set_numbers [of vs] by simp
  then show ?thesis using None by (simp add: maximum_def)
next
  case (Some x)
  then have a: "Some x \<in> set vs" and b: "\<forall>y. Some y \<in> set vs \<longrightarrow> y \<le> x"
    using assms by (simp_all add: is_max_of_def)
  let ?S = "set (numbers vs)"
  have x: "x \<in> ?S" using a by (simp add: set_numbers)
  then have ne: "numbers vs \<noteq> []" by auto
  have "Max ?S = x"
  proof (rule Max_eqI)
    show "finite ?S" by simp
    show "x \<in> ?S" by (rule x)
    fix y
    assume "y \<in> ?S"
    then show "y \<le> x" using b by (simp add: set_numbers)
  qed
  then show ?thesis using Some ne by (simp add: maximum_def)
qed

lemma column_maxima_eq:
  assumes "\<forall>r \<in> set rs. length r = n"
  shows "column_maxima n rs = map (\<lambda>j. maximum (map (\<lambda>r. r ! j) rs)) [0 ..< n]"
proof (rule nth_equalityI)
  show "length (column_maxima n rs) = length (map (\<lambda>j. maximum (map (\<lambda>r. r ! j) rs)) [0 ..< n])"
    using assms by (simp add: length_column_maxima)
next
  fix j
  assume "j < length (column_maxima n rs)"
  then have j: "j < n" using assms by (simp add: length_column_maxima)
  have "is_max_of (column_maxima n rs ! j) (map (\<lambda>r. r ! j) rs)"
    using assms j by (rule column_maxima_nth)
  then have "column_maxima n rs ! j = maximum (map (\<lambda>r. r ! j) rs)" by (rule is_max_of_unique)
  then show "column_maxima n rs ! j = map (\<lambda>j. maximum (map (\<lambda>r. r ! j) rs)) [0 ..< n] ! j"
    using j by simp
qed

lemma relabel_zip: "relabel f (zip ks vs) = zip (map f ks) vs"
  by (simp add: relabel_def zip_map1)

lemma relabel_append: "relabel f (a @ b) = relabel f a @ relabel f b"
  by (simp add: relabel_def)

lemma player_max_eq:
  assumes "well_formed df"
  shows "relabel (\<lambda>c. lower c @ ''_max'') (player_max df) = maxima_of df"
proof -
  have "\<forall>r \<in> set (butlast (stat_rows df)). length r = length (stat_columns df)"
    using assms by (auto simp: well_formed_def dest: in_set_butlastD)
  then have "column_maxima (length (stat_columns df)) (butlast (stat_rows df)) =
      map (\<lambda>j. maximum (players df j)) [0 ..< length (stat_columns df)]"
    unfolding players_def by (rule column_maxima_eq)
  then show ?thesis by (simp add: player_max_def maxima_of_def relabel_zip)
qed

lemma last_row_eq:
  assumes "last_row df = Inr t"
  shows "stat_rows df \<noteq> []" and "relabel lower t = totals_of df"
  using assms by (auto simp: last_row_def totals_of_def relabel_zip split: if_splits)

lemma build_summary_eq:
  assumes b: "extract_team_stats soup team ''basic'' = Inr basic"
      and a: "extract_team_stats soup team ''advanced'' = Inr advanced"
      and wf: "well_formed basic" "well_formed advanced"
      and s: "build_summary soup team = Inr summary"
  shows "summary = entries basic advanced"
    and "stat_rows basic \<noteq> []" and "stat_rows advanced \<noteq> []"
proof -
  obtain tb where tb: "last_row basic = Inr tb"
    using s a b by (auto simp: build_summary_def split: sum.splits)
  obtain ta where ta: "last_row advanced = Inr ta"
    using s a b tb by (auto simp: build_summary_def split: sum.splits)
  have "summary = relabel lower (tb @ ta)
      @ relabel (\<lambda>c. lower c @ ''_max'') (player_max basic @ player_max advanced)"
    using s a b tb ta by (simp add: build_summary_def)
  then show "summary = entries basic advanced"
    by (simp add: entries_def relabel_append last_row_eq(2) [OF tb] last_row_eq(2) [OF ta]
        player_max_eq [OF wf(1)] player_max_eq [OF wf(2)])
  show "stat_rows basic \<noteq> []" using tb by (rule last_row_eq(1))
  show "stat_rows advanced \<noteq> []" using ta by (rule last_row_eq(1))
qed

lemma getitem_select: "getitem s cols = Inr p \<Longrightarrow> p = select cols s"
proof (induction cols arbitrary: p)
  case Nil
  then show ?case by (simp add: select_def)
next
  case (Cons c cols)
  then show ?case by (auto simp: select_def split: if_splits sum.splits)
qed

lemma set_select: "set (select cols s) \<subseteq> set s"
  by (auto simp: select_def)

lemma summarize_head:
  assumes "summarize soup (team # teams) bc = Inr (ss, fin)"
  shows "\<exists>s rest. build_summary soup team = Inr s \<and> ss = select (schema_for bc s) s # rest \<and>
           summarize soup teams (pinned bc s) = Inr (rest, fin)"
proof -
  obtain s where s: "build_summary soup team = Inr s"
    using assms by (auto split: sum.splits)
  obtain unset where u: "py_not bc = Inr unset"
    using assms s by (auto split: sum.splits)
  let ?bc' = "if unset then PyList (filter (\<lambda>col. \<not> contains ''bpm'' col)
                                 (drop_duplicates (map fst s))) else bc"
  obtain p where p: "getitem s (labels ?bc') = Inr p"
    using assms s u by (auto simp: Let_def split: sum.splits)
  obtain rest where r: "ss = p # rest" "summarize soup teams ?bc' = Inr (rest, fin)"
    using assms s u p by (auto simp: Let_def split: sum.splits prod.splits)
  have l: "labels ?bc' = schema_for bc s"
    using u by (cases bc) (auto simp: schema_for_def)
  have b: "?bc' = pinned bc s"
    using u by (cases bc) (auto simp: schema_for_def pinned_def)
  show ?thesis using s getitem_select [OF p] r l b by simp
qed

lemma in_totals_of:
  assumes "(k, v) \<in> set (totals_of df)"
  shows "\<exists>j < length (stat_columns df). k = lower (stat_columns df ! j) \<and>
           v = last (stat_rows df) ! j"
proof -
  obtain n where "map lower (stat_columns df) ! n = k" "last (stat_rows df) ! n = v"
    "n < length (map lower (stat_columns df))"
    using assms unfolding totals_of_def in_set_zip by auto
  then show ?thesis by auto
qed

lemma in_maxima_of:
  assumes "(k, v) \<in> set (maxima_of df)"
  shows "\<exists>j < length (stat_columns df). k = lower (stat_columns df ! j) @ ''_max'' \<and>
           is_max_of v (players df j)"
proof -
  obtain n where n: "map (\<lambda>c. lower c @ ''_max'') (stat_columns df) ! n = k"
    "map (\<lambda>j. maximum (players df j)) [0 ..< length (stat_columns df)] ! n = v"
    "n < length (map (\<lambda>c. lower c @ ''_max'') (stat_columns df))"
    using assms unfolding maxima_of_def in_set_zip by auto
  then have "n < length (stat_columns df)" by simp
  moreover have "k = lower (stat_columns df ! n) @ ''_max''" using n by simp
  moreover have "v = maximum (players df n)" using n by simp
  ultimately show ?thesis using maximum_is_max by blast
qed

subsection \<open>The game with a column named like a maximum\<close>

lemma lower_clash: "lower ''PTS_max'' = ''pts_max''"
  by (simp add: lower_def lower_char_def)

lemma clash_build:
  "build_summary clash_game ''LAL'' =
     Inr [(''pts'', Some 104), (''pts_max'', Some 7), (''ts%'', Some 0.5),
          (''pts_max'', Some 30), (''pts_max_max'', Some 2), (''ts%_max'', Some 0.5)]"
  "build_summary clash_game ''BOS'' =
     Inr [(''pts'', Some 104), (''pts_max'', Some 7), (''ts%'', Some 0.5),
          (''pts_max'', Some 30), (''pts_max_max'', Some 2), (''ts%_max'', Some 0.5)]"
  by (simp_all add: build_summary_def extract_team_stats_def clash_game_def clash_basic_def
      clash_advanced_def last_row_def player_max_def column_maxima_def relabel_def lower_simps
      lower_clash)

lemma clash_summarize:
  "summarize clash_game [''LAL'', ''BOS''] PyNone =
     Inr ([clash_summary, clash_summary],
          PyList [''pts'', ''pts_max'', ''ts%'', ''pts_max_max'', ''ts%_max''])"
  by (simp add: clash_build clash_summary_def)

lemma clash_line_score: "line_score clash_game = [(''LAL'', 104), (''BOS'', 110)]"
  by (simp add: clash_game_def)

lemma clash_game_frame:
  "game_frame clash_game PyNone =
     Inr \<lparr>columns = [''pts'', ''pts_max'', ''pts_max'', ''ts%'', ''pts_max_max'', ''ts%_max'',
                     ''team'', ''total'', ''home''],
          rows = [[NumVal 104, NumVal 7, NumVal 30, NumVal 0.5, NumVal 2, NumVal 0.5,
                   StrVal ''LAL'', IntVal 104, IntVal 0],
                  [NumVal 104, NumVal 7, NumVal 30, NumVal 0.5, NumVal 2, NumVal 0.5,
                   StrVal ''BOS'', IntVal 110, IntVal 1]]\<rparr>"
  by (simp add: game_frame_def clash_line_score clash_summarize clash_summary_def
      concat_summaries_def stat_cell_def set_column_def overwrite_def del: summarize.simps)

lemma clash_extracted:
  "process_box_score example_to_datetime clash_game PyNone = Inr clash_frame"
proof -
  have s: "extract_season clash_game = Inr ''NBA''"
    by (simp add: extract_season_def clash_game_def last_segment_def)
  have d: "example_to_datetime (take 8 (last_segment (path clash_game))) = Some ''2016-10-26''"
    by (simp add: example_to_datetime_def clash_game_def last_segment_def)
  show ?thesis
    by (simp add: process_box_score_def clash_game_frame full_game_def with_opponent_def
      s d set_column_def set_scalar_def overwrite_def won_column_def
      cell_of_def clash_frame_def Let_def numeral_2_eq_2)
qed

lemma clash_players:
  "players clash_basic 0 = [Some 30, Some 21]" "players clash_basic 1 = [Some 1, Some 2]"
  "players clash_advanced 0 = [Some 0.5, Some 0.25]"
  "last (stat_rows clash_basic) = [Some 104, Some 7]"
  by (simp_all add: players_def clash_basic_def clash_advanced_def)

lemma example_players:
  "players (example_basic 30 21 104) 1 = [Some 30, Some 21]"
  "map (\<lambda>r. r ! 1) (stat_rows (example_basic 30 21 104)) = [Some 30, Some 21, Some 104]"
  by (simp_all add: players_def example_basic_def)

section \<open>The claims about the fetcher\<close>

text \<open>
  C5. When every attempt of a fetch times out, the fetcher navigates exactly \<open>retries\<close>
  times, attempts \<open>1\<close> to \<open>retries\<close> in this order, and then returns \<open>None\<close>: a value,
  not an exception.
\<close>

theorem C5_timeouts_exhaust_budget:
  assumes "\<forall>i \<in> {1 .. retries}. net url selector i = Timeout"
  shows "fst (fetch_html_content net url selector sleep retries) = Inr None
       \<and> gotos (snd (fetch_html_content net url selector sleep retries)) =
           map (\<lambda>i. (url, selector, i)) [1 ..< retries + 1]
       \<and> length (gotos (snd (fetch_html_content net url selector sleep retries))) = retries"
proof -
  have "\<forall>i \<in> set [1 ..< retries + 1]. net url selector i = Timeout"
    using assms by auto
  then have "fetch_html_content net url selector sleep retries =
      (Inr None, attempt_events url selector sleep [1 ..< retries + 1])"
    unfolding fetch_html_content_def by (rule attempt_loop_all_timeout)
  then show ?thesis by (simp add: gotos_attempt_events)
qed

theorem C5_witness:
  "fst (fetch_html_content (\<lambda>u s i. Timeout) ''u'' ''#content'' 9 3) = Inr None
   \<and> gotos (snd (fetch_html_content (\<lambda>u s i. Timeout) ''u'' ''#content'' 9 3)) =
       [(''u'', ''#content'', 1), (''u'', ''#content'', 2), (''u'', ''#content'', 3)]
   \<and> length (gotos (snd (fetch_html_content (\<lambda>u s i. Timeout) ''u'' ''#content'' 9 3))) = 3"
proof -
  have h: "\<forall>i \<in> {1 .. 3::nat}. (\<lambda>u s i. Timeout) ''u'' ''#content'' i = Timeout" by simp
  have u: "[1 ..< 3 + 1] = [1, 2, 3::nat]" by (simp add: upt_rec)
  show ?thesis
    using C5_timeouts_exhaust_budget [OF h, where sleep = 9] unfolding u by simp
qed

text \<open>
  C6. The events of a fetch with base delay \<open>sleep\<close> and budget \<open>retries\<close> are, for each
  attempt \<open>i\<close> from \<open>1\<close> to the number \<open>n\<close> of attempts it makes, a sleep of \<open>sleep * i\<close>
  directly followed by navigation \<open>i\<close>, and nothing else. Here \<open>n\<close> is fixed by the site:
  the attempts before \<open>n\<close> time out, and attempt \<open>n\<close> does not unless the budget ends
  with it; with a budget of at least one there is a first attempt, so the trace begins
  with a sleep of \<open>sleep * 1\<close>. The delays are linear in the attempt number and therefore
  non-decreasing.
\<close>

theorem C6_linear_delay_before_every_attempt:
  "snd (fetch_html_content net url selector sleep retries) =
     concat (map (\<lambda>i. [Sleep (sleep * i), Goto url selector i])
               [1 ..< attempts_made net url selector retries + 1])
   \<and> (\<forall>i. 1 \<le> i \<and> i \<le> attempts_made net url selector retries \<longrightarrow>
        snd (fetch_html_content net url selector sleep retries) ! (2 * (i - 1))
          = Sleep (sleep * i) \<and>
        snd (fetch_html_content net url selector sleep retries) ! (2 * (i - 1) + 1)
          = Goto url selector i)
   \<and> delays (snd (fetch_html_content net url selector sleep retries)) =
       map (\<lambda>i. sleep * i) [1 ..< attempts_made net url selector retries + 1]
   \<and> sorted (delays (snd (fetch_html_content net url selector sleep retries)))
   \<and> attempts_made net url selector retries \<le> retries
   \<and> (0 < retries \<longrightarrow> 0 < attempts_made net url selector retries \<and>
        take 2 (snd (fetch_html_content net url selector sleep retries))
          = [Sleep (sleep * 1), Goto url selector 1])
   \<and> (\<forall>i. 1 \<le> i \<and> i < attempts_made net url selector retries \<longrightarrow>
        net url selector i = Timeout)
   \<and> (attempts_made net url selector retries < retries \<longrightarrow>
        net url selector (attempts_made net url selector retries) \<noteq> Timeout)"
proof -
  let ?n = "attempts_made net url selector retries"
  let ?evs = "snd (fetch_html_content net url selector sleep retries)"
  have ev: "?evs = attempt_events url selector sleep [1 ..< ?n + 1]"
    by (rule fetch_html_content_trace)
  have 1: "?evs = concat (map (\<lambda>i. [Sleep (sleep * i), Goto url selector i]) [1 ..< ?n + 1])"
    using ev by (simp only: attempt_events_def)
  have 2: "\<forall>i. 1 \<le> i \<and> i \<le> ?n \<longrightarrow>
      ?evs ! (2 * (i - 1)) = Sleep (sleep * i) \<and> ?evs ! (2 * (i - 1) + 1) = Goto url selector i"
    unfolding ev using attempt_events_nth by blast
  have 3: "delays ?evs = map (\<lambda>i. sleep * i) [1 ..< ?n + 1]"
    unfolding ev by (rule delays_attempt_events)
  have "sorted (map (\<lambda>i. sleep * i) [1 ..< ?n + 1])" by (rule sorted_linear)
  then have 4: "sorted (delays ?evs)" by (simp only: 3)
  have 5: "?n \<le> retries" by (rule attempts_made_le)
  have 6: "0 < retries \<longrightarrow> 0 < ?n \<and> take 2 ?evs = [Sleep (sleep * 1), Goto url selector 1]"
  proof
    assume "0 < retries"
    then have p: "0 < ?n" by (rule attempts_made_pos)
    then have "1 < ?n + 1" by simp
    then have "[1 ..< ?n + 1] = 1 # [Suc 1 ..< ?n + 1]" by (rule upt_conv_Cons)
    then have "attempt_events url selector sleep [1 ..< ?n + 1] =
        Sleep (sleep * 1) # Goto url selector 1 # attempt_events url selector sleep [Suc 1 ..< ?n + 1]"
      by (simp add: attempt_events_def del: upt_Suc)
    then have "take 2 ?evs = [Sleep (sleep * 1), Goto url selector 1]"
      unfolding ev by (simp add: numeral_2_eq_2 del: upt_Suc)
    then show "0 < ?n \<and> take 2 ?evs = [Sleep (sleep * 1), Goto url selector 1]" using p by simp
  qed
  have 7: "\<forall>i. 1 \<le> i \<and> i < ?n \<longrightarrow> net url selector i = Timeout"
    using attempts_made_timeouts by blast
  have 8: "?n < retries \<longrightarrow> net url selector ?n \<noteq> Timeout"
    using attempts_made_last by blast
  show ?thesis
    apply (intro conjI)
           apply (rule 1)
          apply (rule 2)
         apply (rule 3)
        apply (rule 4)
       apply (rule 5)
      apply (rule 6)
     apply (rule 7)
    apply (rule 8)
    done
qed

theorem C6_witness:
  "attempts_made slow_net ''u'' ''#content'' 12 = 3
   \<and> snd (fetch_html_content slow_net ''u'' ''#content'' 9 12) =
       [Sleep 9, Goto ''u'' ''#content'' 1, Sleep 18, Goto ''u'' ''#content'' 2,
        Sleep 27, Goto ''u'' ''#content'' 3]
   \<and> delays (snd (fetch_html_content slow_net ''u'' ''#content'' 9 12)) = [9, 18, 27]
   \<and> sorted (delays (snd (fetch_html_content slow_net ''u'' ''#content'' 9 12)))
   \<and> take 2 (snd (fetch_html_content slow_net ''u'' ''#content'' 9 12)) =
       [Sleep 9, Goto ''u'' ''#content'' 1]
   \<and> slow_net ''u'' ''#content'' 1 = Timeout \<and> slow_net ''u'' ''#content'' 2 = Timeout
   \<and> slow_net ''u'' ''#content'' 3 \<noteq> Timeout"
proof -
  have u: "[1 ..< 3 + 1] = [1, 2, 3::nat]" by (simp add: upt_rec)
  show ?thesis
    using C6_linear_delay_before_every_attempt [of slow_net "''u''" "''#content''" 9 12]
    unfolding slow_net_made u by (simp add: slow_net_def)
qed

section \<open>The claims about the crawl\<close>

text \<open>
  C2. A run of the orchestrator never navigates to a schedule page or a box score whose
  file is in the store it started from, and it leaves every stored file as it was. Run
  again on the store it produced, with the site answering as before, it ends the same way
  and leaves that store identical, again without a fetch for anything stored. Within one
  season whose index lists pages with distinct names, the schedule pages fetched are
  exactly the listed pages that are not stored: one page, when two of three are stored.
\<close>

theorem C2_stored_resources_are_not_fetched:
  "(getdata_main net find_all_a st = (r, st', evs) \<longrightarrow>
      fetches_absent st evs \<and> store_le st st' \<and>
      (\<exists>evs2. getdata_main net find_all_a st' = (r, st', evs2) \<and> fetches_absent st' evs2))
   \<and> (fetch_default net (season_url season) ''#content .filter'' = (Inr (Some html), e0) \<and>
      html \<noteq> [] \<and> standings_pages (find_all_a html) = Inr urls \<and>
      distinct (map last_segment urls) \<and>
      scrape_season_data net find_all_a season st0 = (Inr (), st0', evs0) \<longrightarrow>
      fetched ''#all_schedule'' evs0 =
        filter (\<lambda>u. \<not> path_exists (standings_dir st0) (last_segment u)) urls)"
proof (intro conjI impI)
  assume run: "getdata_main net find_all_a st = (r, st', evs)"
  show "fetches_absent st evs" using run by (rule getdata_main_absent)
  show "store_le st st'" using run by (rule getdata_main_mono)
  obtain evs2 where again: "getdata_main net find_all_a st' = (r, st', evs2)"
    using getdata_main_rerun [OF run] by blast
  have "fetches_absent st' evs2" using again by (rule getdata_main_absent)
  then show "\<exists>evs2. getdata_main net find_all_a st' = (r, st', evs2) \<and> fetches_absent st' evs2"
    using again by blast
next
  assume h: "fetch_default net (season_url season) ''#content .filter'' = (Inr (Some html), e0) \<and>
      html \<noteq> [] \<and> standings_pages (find_all_a html) = Inr urls \<and>
      distinct (map last_segment urls) \<and>
      scrape_season_data net find_all_a season st0 = (Inr (), st0', evs0)"
  then show "fetched ''#all_schedule'' evs0 =
        filter (\<lambda>u. \<not> path_exists (standings_dir st0) (last_segment u)) urls"
    using scrape_season_data_fetched [of net season html e0 find_all_a urls st0 st0' evs0] by blast
qed

theorem C2_witness:
  "getdata_main example_net example_anchors example_store = (Inr (), example_store', example_events)
   \<and> fetches_absent example_store example_events
   \<and> store_le example_store example_store'
   \<and> (\<exists>evs2. getdata_main example_net example_anchors example_store' = (Inr (), example_store', evs2)
         \<and> fetches_absent example_store' evs2)
   \<and> scrape_season_data example_net example_anchors 2016 example_store =
        (Inr (), example_store', example_season_events)
   \<and> fetched ''#all_schedule'' example_season_events = [site @ december]
   \<and> length (fetched ''#all_schedule'' example_season_events) = 1"
proof -
  note c = C2_stored_resources_are_not_fetched [of example_net example_anchors example_store
      "Inr ()" example_store' example_events 2016 "''index''"
      "[Sleep 9, Goto (season_url 2016) ''#content .filter'' 1]"
      "[site @ october, site @ november, site @ december]" example_store example_store'
      example_season_events]
  have a: "fetches_absent example_store example_events \<and> store_le example_store example_store' \<and>
      (\<exists>evs2. getdata_main example_net example_anchors example_store' = (Inr (), example_store', evs2)
         \<and> fetches_absent example_store' evs2)"
    using c example_run by blast
  have "fetched ''#all_schedule'' example_season_events =
      filter (\<lambda>u. \<not> path_exists (standings_dir example_store) (last_segment u))
        [site @ october, site @ november, site @ december]"
    using c example_index example_pages example_distinct example_season_run by simp
  then have b: "fetched ''#all_schedule'' example_season_events = [site @ december]"
    by (simp only: example_absent)
  show ?thesis using a b example_run example_season_run by simp
qed

text \<open>
  C7. A navigation that fails other than by a timeout is not retried: the fetch ends with
  that attempt and raises. No function of the orchestrator catches the exception, so the
  crawl as a whole ends there: the failed navigation is the last event of the run, and
  the run returns the exception.
\<close>

theorem C7_failure_not_retried_ends_the_crawl:
  "(1 \<le> j \<and> j \<le> retries \<and> net url selector j = Failure \<and>
      (\<forall>i \<in> {1 ..< j}. net url selector i = Timeout) \<longrightarrow>
      fetch_html_content net url selector sleep retries =
        (Inl NavigationError, attempt_events url selector sleep [1 ..< j + 1]))
   \<and> (getdata_main net find_all_a st = (r, st', evs) \<and> has_failure net evs \<longrightarrow>
        r = Inl NavigationError \<and> no_event_after_failure net evs)"
proof (intro conjI impI)
  assume "1 \<le> j \<and> j \<le> retries \<and> net url selector j = Failure \<and>
      (\<forall>i \<in> {1 ..< j}. net url selector i = Timeout)"
  then show "fetch_html_content net url selector sleep retries =
        (Inl NavigationError, attempt_events url selector sleep [1 ..< j + 1])"
    using fetch_html_content_failure [of j retries net url selector sleep] by blast
next
  assume h: "getdata_main net find_all_a st = (r, st', evs) \<and> has_failure net evs"
  then have "aborted net r evs" using getdata_main_aborted [of net find_all_a st r st' evs] by simp
  then show "r = Inl NavigationError" and "no_event_after_failure net evs"
    using h by (simp_all add: aborted_def)
qed

theorem C7_witness:
  "fetch_html_content failing_net (season_url 2016) ''#content .filter'' 9 12 =
     (Inl NavigationError, [Sleep 9, Goto (season_url 2016) ''#content .filter'' 1])
   \<and> getdata_main failing_net (\<lambda>html. []) empty_store =
     (Inl NavigationError, empty_store, [Sleep 9, Goto (season_url 2016) ''#content .filter'' 1])
   \<and> has_failure failing_net [Sleep 9, Goto (season_url 2016) ''#content .filter'' 1]
   \<and> no_event_after_failure failing_net [Sleep 9, Goto (season_url 2016) ''#content .filter'' 1]"
proof -
  note c = C7_failure_not_retried_ends_the_crawl [of 1 12 failing_net "season_url 2016"
      "''#content .filter''" 9 "\<lambda>html. []" empty_store "Inl NavigationError" empty_store
      "[Sleep 9, Goto (season_url 2016) ''#content .filter'' 1]"]
  have a: "fetch_html_content failing_net (season_url 2016) ''#content .filter'' 9 12 =
      (Inl NavigationError, attempt_events (season_url 2016) ''#content .filter'' 9 [1 ..< 1 + 1])"
    using c failing_first failing_none_before by simp
  have b: "no_event_after_failure failing_net [Sleep 9, Goto (season_url 2016) ''#content .filter'' 1]"
    using c failing_run failing_has_failure by blast
  show ?thesis using a b failing_run failing_has_failure by (simp add: attempt_events_def)
qed

theorem C7_counterexample:
  "fst (getdata_main failing_net (\<lambda>html. []) empty_store) = Inl NavigationError
   \<and> failing_net (season_url 2017) ''#content .filter'' 1 = Rendered ''x''
   \<and> (season_url 2017, ''#content .filter'', 1)
        \<notin> set (gotos (snd (snd (getdata_main failing_net (\<lambda>html. []) empty_store))))"
proof -
  have a: "season_url 2017 \<noteq> season_url 2016"
    by (simp add: season_url_def site_def str_nat.simps digit_char_def)
  show ?thesis using a failing_next_season by (simp add: failing_run)
qed

text \<open>
  C9. A fetch that completes with an empty markup fragment is treated as a fetch that ran
  out of retries: nothing is written for the resource, a season whose index comes back
  empty is left without fetching any of its pages, and the whole crawl ends with the same
  result and the same store as it would if every attempt at that resource had timed out.
\<close>

theorem C9_empty_fragment_is_a_failed_fetch:
  "fst (fetch_default net url selector) = Inr (Some []) \<longrightarrow>
     fst (fetch_default (with_timeouts net url selector) url selector) = Inr None
   \<and> same_result (getdata_main net find_all_a st)
        (getdata_main (with_timeouts net url selector) find_all_a st)
   \<and> fst (save_page net selector url d) = Inr ()
   \<and> fst (snd (save_page net selector url d)) = d
   \<and> (url = season_url season \<and> selector = ''#content .filter'' \<longrightarrow>
        scrape_season_data net find_all_a season st =
          (Inr (), st, snd (fetch_default net url selector)))"
proof
  assume h: "fst (fetch_default net url selector) = Inr (Some [])"
  obtain e0 where f: "fetch_default net url selector = (Inr (Some []), e0)"
    using h by (cases "fetch_default net url selector") auto
  have 1: "fst (fetch_default (with_timeouts net url selector) url selector) = Inr None"
    by (rule fetch_default_with_timeouts)
  have 2: "same_result (getdata_main net find_all_a st)
        (getdata_main (with_timeouts net url selector) find_all_a st)"
    using h by (rule getdata_main_same)
  have 3: "fst (save_page net selector url d) = Inr () \<and> fst (snd (save_page net selector url d)) = d"
    using f by (simp add: save_page_def)
  have 4: "url = season_url season \<and> selector = ''#content .filter'' \<longrightarrow>
        scrape_season_data net find_all_a season st =
          (Inr (), st, snd (fetch_default net url selector))"
    using f by (auto simp: scrape_season_data_def)
  show "fst (fetch_default (with_timeouts net url selector) url selector) = Inr None
   \<and> same_result (getdata_main net find_all_a st)
        (getdata_main (with_timeouts net url selector) find_all_a st)
   \<and> fst (save_page net selector url d) = Inr ()
   \<and> fst (snd (save_page net selector url d)) = d
   \<and> (url = season_url season \<and> selector = ''#content .filter'' \<longrightarrow>
        scrape_season_data net find_all_a season st =
          (Inr (), st, snd (fetch_default net url selector)))"
    using 1 2 3 4 by blast
qed

theorem C9_witness:
  "fst (fetch_default blank_net (season_url 2016) ''#content .filter'') = Inr (Some [])
   \<and> fst (fetch_default (with_timeouts blank_net (season_url 2016) ''#content .filter'')
        (season_url 2016) ''#content .filter'') = Inr None
   \<and> same_result (getdata_main blank_net (\<lambda>html. []) empty_store)
        (getdata_main (with_timeouts blank_net (season_url 2016) ''#content .filter'')
           (\<lambda>html. []) empty_store)
   \<and> save_page blank_net ''#content .filter'' (season_url 2016) [] =
        (Inr (), [], [Sleep 9, Goto (season_url 2016) ''#content .filter'' 1])
   \<and> scrape_season_data blank_net (\<lambda>html. []) 2016 empty_store =
        (Inr (), empty_store, [Sleep 9, Goto (season_url 2016) ''#content .filter'' 1])"
proof -
  have h: "fst (fetch_default blank_net (season_url 2016) ''#content .filter'') = Inr (Some [])"
    by (simp add: blank_fetch)
  note c = C9_empty_fragment_is_a_failed_fetch [of blank_net "season_url 2016"
      "''#content .filter''" "\<lambda>html. []" empty_store "[]" 2016, rule_format, OF h]
  have s: "save_page blank_net ''#content .filter'' (season_url 2016) [] =
        (Inr (), [], [Sleep 9, Goto (season_url 2016) ''#content .filter'' 1])"
    by (simp add: save_page_def blank_fetch path_exists_def listdir_def last_segment_def
        season_url_def site_def str_nat.simps digit_char_def)
  show ?thesis using h c s by (simp add: blank_fetch)
qed

section \<open>The claims about the extractor\<close>

text \<open>
  C8. The summary of a team, as the record of the game holds it, is the projection onto
  the pinned labels of these entries, for tables whose numbers a float holds exactly: for
  every column of the basic and of the advanced table the lower-cased name with the value
  of the last row, the team totals, and the name with \<open>_max\<close> added with the maximum of
  the column over the rows before the last, the players alone, NaN skipped. So an entry of
  the summary whose label is not the name of a column is such a maximum over the players'
  rows, and an entry whose label is not a name with \<open>_max\<close> added comes from the last row.
  The teams that follow are summarized with the labels pinned, so the same holds of each.
\<close>

theorem C8_max_over_player_rows_only:
  assumes "summarize soup (team # teams) bc = Inr (summaries, final)"
      and "extract_team_stats soup team ''basic'' = Inr basic"
      and "extract_team_stats soup team ''advanced'' = Inr advanced"
      and "well_formed basic" and "well_formed advanced"
      and "float_exact basic" and "float_exact advanced"
  shows "summaries \<noteq> []
     \<and> hd summaries =
         select (schema_for bc (entries basic advanced)) (entries basic advanced)
     \<and> summarize soup teams (pinned bc (entries basic advanced)) = Inr (tl summaries, final)
     \<and> stat_rows basic \<noteq> [] \<and> stat_rows advanced \<noteq> []
     \<and> (\<forall>(k, v) \<in> set (hd summaries).
          (k \<notin> fst ` set (totals_of basic @ totals_of advanced) \<longrightarrow>
             (\<exists>df \<in> {basic, advanced}. \<exists>j < length (stat_columns df).
                k = lower (stat_columns df ! j) @ ''_max'' \<and> is_max_of v (players df j))) \<and>
          (k \<notin> fst ` set (maxima_of basic @ maxima_of advanced) \<longrightarrow>
             (\<exists>df \<in> {basic, advanced}. \<exists>j < length (stat_columns df).
                k = lower (stat_columns df ! j) \<and> v = last (stat_rows df) ! j)))"
proof -
  obtain s rest where s: "build_summary soup team = Inr s"
    and ss: "summaries = select (schema_for bc s) s # rest"
    and nx: "summarize soup teams (pinned bc s) = Inr (rest, final)"
    using summarize_head [OF assms(1)] by blast
  note e = build_summary_eq [OF assms(2,3,4,5) s]
  have hd: "hd summaries = select (schema_for bc (entries basic advanced)) (entries basic advanced)"
    using ss e(1) by simp
  have sub: "set (hd summaries) \<subseteq> set (entries basic advanced)"
    unfolding hd by (rule set_select)
  have each: "(k \<notin> fst ` set (totals_of basic @ totals_of advanced) \<longrightarrow>
             (\<exists>df \<in> {basic, advanced}. \<exists>j < length (stat_columns df).
                k = lower (stat_columns df ! j) @ ''_max'' \<and> is_max_of v (players df j))) \<and>
          (k \<notin> fst ` set (maxima_of basic @ maxima_of advanced) \<longrightarrow>
             (\<exists>df \<in> {basic, advanced}. \<exists>j < length (stat_columns df).
                k = lower (stat_columns df ! j) \<and> v = last (stat_rows df) ! j))"
    if kv: "(k, v) \<in> set (hd summaries)" for k v
  proof (intro conjI impI)
    have m: "(k, v) \<in> set (totals_of basic @ totals_of advanced)
        \<or> (k, v) \<in> set (maxima_of basic) \<or> (k, v) \<in> set (maxima_of advanced)"
      using kv sub by (auto simp: entries_def)
    assume "k \<notin> fst ` set (totals_of basic @ totals_of advanced)"
    then have "(k, v) \<notin> set (totals_of basic @ totals_of advanced)" by force
    then have "(k, v) \<in> set (maxima_of basic) \<or> (k, v) \<in> set (maxima_of advanced)"
      using m by simp
    then show "\<exists>df \<in> {basic, advanced}. \<exists>j < length (stat_columns df).
                k = lower (stat_columns df ! j) @ ''_max'' \<and> is_max_of v (players df j)"
      using in_maxima_of by blast
  next
    have m: "(k, v) \<in> set (maxima_of basic @ maxima_of advanced)
        \<or> (k, v) \<in> set (totals_of basic) \<or> (k, v) \<in> set (totals_of advanced)"
      using kv sub by (auto simp: entries_def)
    assume "k \<notin> fst ` set (maxima_of basic @ maxima_of advanced)"
    then have "(k, v) \<notin> set (maxima_of basic @ maxima_of advanced)" by force
    then have "(k, v) \<in> set (totals_of basic) \<or> (k, v) \<in> set (totals_of advanced)"
      using m by simp
    then show "\<exists>df \<in> {basic, advanced}. \<exists>j < length (stat_columns df).
                k = lower (stat_columns df ! j) \<and> v = last (stat_rows df) ! j"
      using in_totals_of by blast
  qed
  have all: "\<forall>(k, v) \<in> set (hd summaries).
          (k \<notin> fst ` set (totals_of basic @ totals_of advanced) \<longrightarrow>
             (\<exists>df \<in> {basic, advanced}. \<exists>j < length (stat_columns df).
                k = lower (stat_columns df ! j) @ ''_max'' \<and> is_max_of v (players df j))) \<and>
          (k \<notin> fst ` set (maxima_of basic @ maxima_of advanced) \<longrightarrow>
             (\<exists>df \<in> {basic, advanced}. \<exists>j < length (stat_columns df).
                k = lower (stat_columns df ! j) \<and> v = last (stat_rows df) ! j))"
    using each by blast
  have ne: "summaries \<noteq> []" using ss by simp
  have tl: "summarize soup teams (pinned bc (entries basic advanced)) = Inr (tl summaries, final)"
    using nx ss e(1) by simp
  show ?thesis
    apply (intro conjI)
         apply (rule ne)
        apply (rule hd)
       apply (rule tl)
      apply (rule e(2))
     apply (rule e(3))
    apply (rule all)
    done
qed

theorem C8_witness:
  "summarize (example_game 104 110) [''LAL'', ''BOS''] PyNone =
     Inr ([[(''mp'', Some 240), (''mp'', Some 240), (''pts'', Some 104), (''+/-'', None),
            (''ts%'', Some 0.55), (''mp_max'', None), (''mp_max'', None), (''pts_max'', Some 30),
            (''+/-_max'', Some 4), (''ts%_max'', Some 0.61)],
           [(''mp'', Some 240), (''mp'', Some 240), (''pts'', Some 110), (''+/-'', None),
            (''ts%'', Some 0.55), (''mp_max'', None), (''mp_max'', None), (''pts_max'', Some 33),
            (''+/-_max'', Some 4), (''ts%_max'', Some 0.61)]],
          PyList example_columns)
   \<and> select (schema_for PyNone (entries (example_basic 30 21 104) example_advanced))
        (entries (example_basic 30 21 104) example_advanced) =
       [(''mp'', Some 240), (''mp'', Some 240), (''pts'', Some 104), (''+/-'', None),
        (''ts%'', Some 0.55), (''mp_max'', None), (''mp_max'', None), (''pts_max'', Some 30),
        (''+/-_max'', Some 4), (''ts%_max'', Some 0.61)]
   \<and> players (example_basic 30 21 104) 1 = [Some 30, Some 21]
   \<and> is_max_of (Some 30) (players (example_basic 30 21 104) 1)
   \<and> \<not> is_max_of (Some 30) (map (\<lambda>r. r ! 1) (stat_rows (example_basic 30 21 104)))"
proof -
  note c = C8_max_over_player_rows_only [OF example_summarize [of 104 110]
      example_tables(1) [of 104 110] example_tables(2) [of 104 110] example_tables(3-6)]
  have h: "select (schema_for PyNone (entries (example_basic 30 21 104) example_advanced))
        (entries (example_basic 30 21 104) example_advanced) =
       [(''mp'', Some 240), (''mp'', Some 240), (''pts'', Some 104), (''+/-'', None),
        (''ts%'', Some 0.55), (''mp_max'', None), (''mp_max'', None), (''pts_max'', Some 30),
        (''+/-_max'', Some 4), (''ts%_max'', Some 0.61)]"
    using c by simp
  have m: "is_max_of (Some 30) [Some 30, Some 21]"
    "\<not> is_max_of (Some 30) [Some 30, Some 21, Some 104]"
    by (auto simp: is_max_of_def)
  have p1: "is_max_of (Some 30) (players (example_basic 30 21 104) 1)"
    unfolding example_players(1) by (rule m(1))
  have p2: "\<not> is_max_of (Some 30) (map (\<lambda>r. r ! 1) (stat_rows (example_basic 30 21 104)))"
    unfolding example_players(2) by (rule m(2))
  show ?thesis
    apply (intro conjI)
        apply (rule example_summarize)
       apply (rule h)
      apply (rule example_players(1))
     apply (rule p1)
    apply (rule p2)
    done
qed

theorem C8_counterexample:
  "process_box_score example_to_datetime clash_game PyNone = Inr clash_frame
   \<and> summarize clash_game [''LAL'', ''BOS''] PyNone =
       Inr ([clash_summary, clash_summary],
            PyList [''pts'', ''pts_max'', ''ts%'', ''pts_max_max'', ''ts%_max''])
   \<and> (''pts_max'', Some 7) \<in> set clash_summary
   \<and> value_at clash_frame 0 ''pts_max'' = NumVal 7
   \<and> last (stat_rows clash_basic) = [Some 104, Some 7]
   \<and> is_max_of (Some 30) (players clash_basic 0)
   \<and> \<not> is_max_of (Some 7) (players clash_basic 0)
   \<and> \<not> is_max_of (Some 7) (players clash_basic 1)
   \<and> \<not> is_max_of (Some 7) (players clash_advanced 0)"
proof -
  have v: "value_at clash_frame 0 ''pts_max'' = NumVal 7"
    by (simp add: value_at_def cell_of_def clash_frame_def)
  have m: "is_max_of (Some 30) [Some 30, Some 21]" "\<not> is_max_of (Some 7) [Some 30, Some 21]"
    "\<not> is_max_of (Some 7) [Some 1, Some 2]" "\<not> is_max_of (Some 7) [Some 0.5, Some 0.25]"
    by (auto simp: is_max_of_def)
  have i: "(''pts_max'', Some 7) \<in> set clash_summary" by (simp add: clash_summary_def)
  show ?thesis
    apply (intro conjI)
            apply (rule clash_extracted)
           apply (rule clash_summarize)
          apply (rule i)
         apply (rule v)
        apply (rule clash_players(4))
       apply (simp only: clash_players(1) m(1))
      apply (simp only: clash_players(1) m(2) not_False_eq_True)
     apply (simp only: clash_players(2) m(3) not_False_eq_True)
    apply (simp only: clash_players(3) m(4) not_False_eq_True)
    done
qed

text \<open>
  C3. Let the totals of the line score be whole numbers of 64 bits. A game is extracted
  only from a line score of two rows, unless its record has exactly two columns named
  \<open>home\<close>. From a line score of two rows the extracted game is a frame of exactly two
  records, and the \<open>total\<close> of each is the \<open>total_opp\<close> of the
  other. The frame begins with the \<open>n\<close> columns of the game frame, followed by the same
  \<open>n\<close> columns with \<open>_opp\<close> added to the name, and in the second block each record holds
  what the other record holds in the first, for every column other than one named like
  the derived columns \<open>season\<close>, \<open>date\<close> and \<open>won\<close>, which are set after the blocks are
  put side by side.
\<close>

theorem C3_records_mirror_each_other:
  assumes "process_box_score to_datetime box_score base_columns = Inr out"
      and "\<forall>x \<in> set (map snd (line_score box_score)). int64 x"
  shows "(count_list (columns out) ''home'' \<noteq> 2 \<longrightarrow> length (line_score box_score) = 2)
     \<and> (length (line_score box_score) = 2 \<longrightarrow>
          length (rows out) = 2
        \<and> value_at out 0 ''total'' = value_at out 1 ''total_opp''
        \<and> value_at out 0 ''total_opp'' = value_at out 1 ''total''
        \<and> (\<exists>g. game_frame box_score base_columns = Inr g
              \<and> ''team'' \<in> set (columns g) \<and> ''total'' \<in> set (columns g)
              \<and> ''home'' \<in> set (columns g)
              \<and> 2 * length (columns g) \<le> length (columns out)
              \<and> (\<forall>j < length (columns g).
                    columns out ! j = columns g ! j \<and>
                    columns out ! (length (columns g) + j) = columns g ! j @ ''_opp'' \<and>
                    (columns g ! j \<noteq> ''season'' \<and> columns g ! j \<noteq> ''date'' \<and>
                     columns g ! j \<noteq> ''won'' \<longrightarrow>
                       rows out ! 0 ! (length (columns g) + j) = rows out ! 1 ! j \<and>
                       rows out ! 1 ! (length (columns g) + j) = rows out ! 0 ! j))))"
proof (intro conjI impI)
  assume "count_list (columns out) ''home'' \<noteq> 2"
  with assms(1) show "length (line_score box_score) = 2" by (rule process_box_score_home)
next
  assume two: "length (line_score box_score) = 2"
  obtain t0 x0 t1 x1 where v: "length (rows out) = 2"
    "value_at out 0 ''total'' = IntVal x0" "value_at out 0 ''total_opp'' = IntVal x1"
    "value_at out 1 ''total'' = IntVal x1" "value_at out 1 ''total_opp'' = IntVal x0"
    using extracted_totals [OF assms(1) two] by blast
  show "length (rows out) = 2" by (rule v(1))
  show "value_at out 0 ''total'' = value_at out 1 ''total_opp''" using v by simp
  show "value_at out 0 ''total_opp'' = value_at out 1 ''total''" using v by simp
  obtain g where g: "game_frame box_score base_columns = Inr g"
    and m: "2 * length (columns g) \<le> length (columns out) \<and>
     (\<forall>j < length (columns g).
        columns out ! j = columns g ! j \<and>
        columns out ! (length (columns g) + j) = columns g ! j @ ''_opp'' \<and>
        (columns g ! j \<noteq> ''season'' \<and> columns g ! j \<noteq> ''date'' \<and> columns g ! j \<noteq> ''won''
           \<longrightarrow> rows out ! 0 ! (length (columns g) + j) = rows out ! 1 ! j \<and>
               rows out ! 1 ! (length (columns g) + j) = rows out ! 0 ! j))"
    using extracted_mirror [OF assms(1) two] by blast
  show "\<exists>g. game_frame box_score base_columns = Inr g
              \<and> ''team'' \<in> set (columns g) \<and> ''total'' \<in> set (columns g)
              \<and> ''home'' \<in> set (columns g)
              \<and> 2 * length (columns g) \<le> length (columns out)
              \<and> (\<forall>j < length (columns g).
                    columns out ! j = columns g ! j \<and>
                    columns out ! (length (columns g) + j) = columns g ! j @ ''_opp'' \<and>
                    (columns g ! j \<noteq> ''season'' \<and> columns g ! j \<noteq> ''date'' \<and>
                     columns g ! j \<noteq> ''won'' \<longrightarrow>
                       rows out ! 0 ! (length (columns g) + j) = rows out ! 1 ! j \<and>
                       rows out ! 1 ! (length (columns g) + j) = rows out ! 0 ! j))"
    apply (rule exI [of _ g])
    apply (intro conjI)
         apply (rule g)
        apply (rule game_frame_names(1) [OF g])
       apply (rule game_frame_names(2) [OF g])
      apply (rule game_frame_names(3) [OF g])
     apply (rule m [THEN conjunct1])
    apply (rule m [THEN conjunct2])
    done
qed

theorem C3_witness:
  "process_box_score example_to_datetime (example_game 104 110) PyNone = Inr (example_frame 104 110)
   \<and> line_score (example_game 104 110) = [(''LAL'', 104), (''BOS'', 110)]
   \<and> int64 104 \<and> int64 110
   \<and> length (rows (example_frame 104 110)) = 2
   \<and> value_at (example_frame 104 110) 0 ''total'' = IntVal 104
   \<and> value_at (example_frame 104 110) 1 ''total_opp'' = IntVal 104
   \<and> value_at (example_frame 104 110) 0 ''total_opp'' = IntVal 110
   \<and> value_at (example_frame 104 110) 1 ''total'' = IntVal 110
   \<and> columns (example_frame 104 110) ! 7 = ''pts_max''
   \<and> columns (example_frame 104 110) ! (13 + 7) = ''pts_max_opp''
   \<and> rows (example_frame 104 110) ! 0 ! (13 + 7) = rows (example_frame 104 110) ! 1 ! 7
   \<and> rows (example_frame 104 110) ! 1 ! (13 + 7) = rows (example_frame 104 110) ! 0 ! 7"
proof -
  have i: "\<forall>x \<in> set (map snd (line_score (example_game 104 110))). int64 x"
    by (simp add: example_line_score int64_def)
  have j: "int64 104" "int64 110" by (simp_all add: int64_def)
  note c = C3_records_mirror_each_other [OF example_extracted [of 104 110] i]
  have t: "length (line_score (example_game 104 110)) = 2" by (rule example_facts(1))
  have "length (rows (example_frame 104 110)) = 2
     \<and> value_at (example_frame 104 110) 0 ''total'' = value_at (example_frame 104 110) 1 ''total_opp''
     \<and> value_at (example_frame 104 110) 0 ''total_opp'' = value_at (example_frame 104 110) 1 ''total''"
    using c t by blast
  then show ?thesis
    using example_extracted [of 104 110] j
    by (simp add: example_values example_line_score) (simp add: example_frame_def)
qed

theorem C3_counterexample:
  "process_box_score example_to_datetime season_game PyNone = Inr season_frame
   \<and> length (line_score season_game) = 2
   \<and> count_list (columns season_frame) ''season'' = 1
   \<and> count_list (columns season_frame) ''season_opp'' = 1
   \<and> value_at season_frame 0 ''season_opp'' = NumVal 9
   \<and> value_at season_frame 1 ''season'' = StrVal ''NBA''
   \<and> value_at season_frame 0 ''season_opp'' \<noteq> value_at season_frame 1 ''season''"
  by (simp add: season_extracted season_line_score)
     (simp add: season_frame_def value_at_def cell_of_def)

text \<open>
  C4. In every game extracted from a line score of two rows whose totals are whole numbers
  of 64 bits, the \<open>total\<close> and \<open>total_opp\<close> of the two records are the two final totals
  of the line score, crosswise; and unless exactly two columns of the record are named
  \<open>won\<close>, the \<open>won\<close> of each record is \<open>total > total_opp\<close>. When the two totals differ,
  they differ in both records and exactly one record has \<open>won\<close> true.
\<close>

theorem C4_won_is_total_greater:
  assumes "process_box_score to_datetime box_score base_columns = Inr out"
      and "length (line_score box_score) = 2"
      and "\<forall>x \<in> set (map snd (line_score box_score)). int64 x"
      and "count_list (columns out) ''won'' \<noteq> 2"
  shows "\<exists>x0 x1. map snd (line_score box_score) = [x0, x1]
     \<and> value_at out 0 ''total'' = IntVal x0 \<and> value_at out 0 ''total_opp'' = IntVal x1
     \<and> value_at out 1 ''total'' = IntVal x1 \<and> value_at out 1 ''total_opp'' = IntVal x0
     \<and> value_at out 0 ''won'' = BoolVal (x0 > x1) \<and> value_at out 1 ''won'' = BoolVal (x1 > x0)
     \<and> (x0 \<noteq> x1 \<longrightarrow>
          value_at out 0 ''total'' \<noteq> value_at out 0 ''total_opp'' \<and>
          value_at out 1 ''total'' \<noteq> value_at out 1 ''total_opp'' \<and>
          (value_at out 0 ''won'' = BoolVal True) \<noteq> (value_at out 1 ''won'' = BoolVal True))"
proof -
  obtain t0 x0 t1 x1 where ls: "line_score box_score = [(t0, x0), (t1, x1)]" and
    v: "value_at out 0 ''total'' = IntVal x0" "value_at out 0 ''total_opp'' = IntVal x1"
    "value_at out 1 ''total'' = IntVal x1" "value_at out 1 ''total_opp'' = IntVal x0"
    "value_at out 0 ''won'' = BoolVal (x0 > x1)" and
    w: "value_at out 1 ''won'' =
       (if count_list (columns out) ''won'' = 2 then BoolVal (x0 > x1) else BoolVal (x1 > x0))"
    using extracted_totals [OF assms(1,2)] by blast
  have w1: "value_at out 1 ''won'' = BoolVal (x1 > x0)" using w assms(4) by simp
  have l: "map snd (line_score box_score) = [x0, x1]" using ls by simp
  have d: "x0 \<noteq> x1 \<longrightarrow>
          value_at out 0 ''total'' \<noteq> value_at out 0 ''total_opp'' \<and>
          value_at out 1 ''total'' \<noteq> value_at out 1 ''total_opp'' \<and>
          (value_at out 0 ''won'' = BoolVal True) \<noteq> (value_at out 1 ''won'' = BoolVal True)"
    unfolding v w1 by auto
  show ?thesis
    apply (rule exI [of _ x0])
    apply (rule exI [of _ x1])
    apply (intro conjI)
           apply (rule l)
          apply (rule v(1))
         apply (rule v(2))
        apply (rule v(3))
       apply (rule v(4))
      apply (rule v(5))
     apply (rule w1)
    apply (rule d)
    done
qed

theorem C4_witness:
  "process_box_score example_to_datetime (example_game 104 110) PyNone = Inr (example_frame 104 110)
   \<and> length (line_score (example_game 104 110)) = 2
   \<and> map snd (line_score (example_game 104 110)) = [104, 110] \<and> int64 104 \<and> int64 110
   \<and> count_list (columns (example_frame 104 110)) ''won'' \<noteq> 2
   \<and> value_at (example_frame 104 110) 0 ''total'' = IntVal 104
   \<and> value_at (example_frame 104 110) 0 ''total_opp'' = IntVal 110
   \<and> value_at (example_frame 104 110) 0 ''won'' = BoolVal False
   \<and> value_at (example_frame 104 110) 1 ''total'' = IntVal 110
   \<and> value_at (example_frame 104 110) 1 ''total_opp'' = IntVal 104
   \<and> value_at (example_frame 104 110) 1 ''won'' = BoolVal True"
proof -
  have i: "\<forall>x \<in> set (map snd (line_score (example_game 104 110))). int64 x"
    by (simp add: example_line_score int64_def)
  have n: "count_list (columns (example_frame 104 110)) ''won'' \<noteq> 2"
    by (simp add: example_facts)
  have j: "map snd (line_score (example_game 104 110)) = [104, 110]" "int64 104" "int64 110"
    by (simp_all add: example_line_score int64_def)
  show ?thesis
    using C4_won_is_total_greater [OF example_extracted [of 104 110] example_facts(1) i n]
      example_extracted [of 104 110] j n
    by (simp add: example_values example_facts(1))
qed

theorem C4_counterexample:
  "process_box_score example_to_datetime (example_game 104 104) PyNone = Inr (example_frame 104 104)
   \<and> value_at (example_frame 104 104) 0 ''total'' = value_at (example_frame 104 104) 0 ''total_opp''
   \<and> value_at (example_frame 104 104) 1 ''total'' = value_at (example_frame 104 104) 1 ''total_opp''
   \<and> value_at (example_frame 104 104) 0 ''won'' = BoolVal False
   \<and> value_at (example_frame 104 104) 1 ''won'' = BoolVal False"
  by (simp add: example_extracted example_values del: One_nat_def)

text \<open>
  C10. When the two final totals of a line score are the same whole number of 64 bits, an
  extracted game has this number as \<open>total\<close> and as \<open>total_opp\<close> of both records, and
  \<open>won\<close> is false in both. The equality of the totals raises nothing: a box score that
  is extracted with some pair of totals is extracted with equal totals too.
\<close>

theorem C10_tie_gives_no_winner:
  assumes "int64 x"
  shows "(process_box_score to_datetime box_score base_columns = Inr out \<and>
          line_score box_score = [(t0, x), (t1, x)] \<longrightarrow>
            length (rows out) = 2
          \<and> value_at out 0 ''total'' = IntVal x \<and> value_at out 0 ''total_opp'' = IntVal x
          \<and> value_at out 1 ''total'' = IntVal x \<and> value_at out 1 ''total_opp'' = IntVal x
          \<and> value_at out 0 ''won'' = BoolVal False \<and> value_at out 1 ''won'' = BoolVal False)
     \<and> (process_box_score to_datetime (box_score\<lparr>line_score := [(t0, x0), (t1, x1)]\<rparr>)
            base_columns = Inr out0 \<longrightarrow>
          (\<exists>out'. process_box_score to_datetime (box_score\<lparr>line_score := [(t0, x), (t1, x)]\<rparr>)
                     base_columns = Inr out'))"
proof (intro conjI impI)
  assume h: "process_box_score to_datetime box_score base_columns = Inr out \<and>
          line_score box_score = [(t0, x), (t1, x)]"
  then have p: "process_box_score to_datetime box_score base_columns = Inr out"
    and ls: "line_score box_score = [(t0, x), (t1, x)]" by simp_all
  have two: "length (line_score box_score) = 2" using ls by simp
  obtain a y0 b y1 where l: "line_score box_score = [(a, y0), (b, y1)]" and
    v: "length (rows out) = 2"
    "value_at out 0 ''total'' = IntVal y0" "value_at out 0 ''total_opp'' = IntVal y1"
    "value_at out 1 ''total'' = IntVal y1" "value_at out 1 ''total_opp'' = IntVal y0"
    "value_at out 0 ''won'' = BoolVal (y0 > y1)"
    "value_at out 1 ''won'' =
       (if count_list (columns out) ''won'' = 2 then BoolVal (y0 > y1) else BoolVal (y1 > y0))"
    using extracted_totals [OF p two] by blast
  have y: "y0 = x" "y1 = x" using l ls by simp_all
  show "length (rows out) = 2"
    "value_at out 0 ''total'' = IntVal x" "value_at out 0 ''total_opp'' = IntVal x"
    "value_at out 1 ''total'' = IntVal x" "value_at out 1 ''total_opp'' = IntVal x"
    "value_at out 0 ''won'' = BoolVal False" "value_at out 1 ''won'' = BoolVal False"
    using v unfolding y by simp_all
next
  assume "process_box_score to_datetime (box_score\<lparr>line_score := [(t0, x0), (t1, x1)]\<rparr>)
            base_columns = Inr out0"
  then show "\<exists>out'. process_box_score to_datetime (box_score\<lparr>line_score := [(t0, x), (t1, x)]\<rparr>)
                     base_columns = Inr out'"
    by (rule tie_extracts)
qed

theorem C10_witness:
  "int64 104
   \<and> process_box_score example_to_datetime (example_game 104 104) PyNone = Inr (example_frame 104 104)
   \<and> line_score (example_game 104 104) = [(''LAL'', 104), (''BOS'', 104)]
   \<and> length (rows (example_frame 104 104)) = 2
   \<and> value_at (example_frame 104 104) 0 ''total'' = IntVal 104
   \<and> value_at (example_frame 104 104) 0 ''total_opp'' = IntVal 104
   \<and> value_at (example_frame 104 104) 0 ''won'' = BoolVal False
   \<and> value_at (example_frame 104 104) 1 ''won'' = BoolVal False
   \<and> process_box_score example_to_datetime (example_game 104 110) PyNone = Inr (example_frame 104 110)
   \<and> (\<exists>out'. process_box_score example_to_datetime (example_game 104 104) PyNone = Inr out')"
proof -
  have i: "int64 104" by (simp add: int64_def)
  note c = C10_tie_gives_no_winner [OF i, of example_to_datetime "example_game 104 104" PyNone
      "example_frame 104 104" "''LAL''" "''BOS''" 104 110 "example_frame 104 110"]
  have a: "length (rows (example_frame 104 104)) = 2
      \<and> value_at (example_frame 104 104) 0 ''total'' = IntVal 104
      \<and> value_at (example_frame 104 104) 0 ''total_opp'' = IntVal 104
      \<and> value_at (example_frame 104 104) 1 ''total'' = IntVal 104
      \<and> value_at (example_frame 104 104) 1 ''total_opp'' = IntVal 104
      \<and> value_at (example_frame 104 104) 0 ''won'' = BoolVal False
      \<and> value_at (example_frame 104 104) 1 ''won'' = BoolVal False"
    using c example_extracted [of 104 104] example_line_score [of 104 104] by blast
  have b: "\<exists>out'. process_box_score example_to_datetime (example_game 104 104) PyNone = Inr out'"
    using c example_extracted [of 104 110] unfolding example_retotal by blast
  show ?thesis
    using a b i example_extracted [of 104 104] example_extracted [of 104 110]
      example_line_score [of 104 104] by simp
qed

text \<open>
  C1. A batch of one document is extracted, and \<open>main\<close> then keeps the columns of the
  whole game record, as a pandas Index, for the next document. With a second document of
  the same structure, \<open>not base_columns\<close> raises ValueError in \<open>process_box_score\<close>:
  the batch ends with that exception and no second summary is made.
\<close>

theorem C1_second_document_raises:
  "parsedata_main example_to_datetime [example_game 104 110] = Inr [example_frame 104 110]
   \<and> process_box_score example_to_datetime (example_game 104 110)
        (PdIndex (columns (example_frame 104 110))) = Inl ValueError
   \<and> parsedata_main example_to_datetime [example_game 104 110, example_game 104 110]
        = Inl ValueError"
  by (simp add: parsedata_main_def example_extracted example_second)

end
